theory Spec2Isabelle
  imports Main "HOL-Library.Char_ord" "HOL-Library.List_Lexorder" "HOL-Library.Multiset"
begin

section \<open>NuXLModificationsGenerator: precursor adduct generation\<close>

text \<open>
  A shallow embedding of \<^verbatim>\<open>NuXLModificationsGenerator.cpp\<close>: the static functions
  \<^verbatim>\<open>notInSeq\<close>, \<^verbatim>\<open>generateTargetSequences\<close> and \<^verbatim>\<open>initModificationMassesNA\<close>.
  Strings are \<open>char list\<close>s. A \<^verbatim>\<open>std::map\<close> is an association list kept in key order,
  a \<^verbatim>\<open>std::set\<close> of strings a list kept in order, so that iterating the container is
  iterating the list. Strings are ordered as \<^verbatim>\<open>std::string\<close> orders them: by character
  code, that is as \<^verbatim>\<open>unsigned char\<close>, a proper prefix first. The keys of a
  \<^verbatim>\<open>std::map<char, ...>\<close> are ordered as \<^verbatim>\<open>char\<close> values, and \<^verbatim>\<open>char\<close> is signed
  here, as it is on x86: the characters from \<open>0x80\<close> on come before the others. An
  \<^verbatim>\<open>Int\<close> is a 32-bit integer, an \<open>int\<close> from \<open>Int_min\<close> to \<open>- Int_min - 1\<close> here; the one
  computation on it that can leave the range is \<open>max_length - 1\<close>, which C++ leaves
  undefined at the least value. The lines written to the log are left out.
\<close>

subsection \<open>Errors and outcomes\<close>

text \<open>
  \<open>MissingInformation\<close> is the exception thrown by the source itself. \<open>ParseError\<close> stands
  for an exception of the formula library on a string it does not accept. \<open>OutOfBounds\<close>
  marks an access beyond the end of a \<^verbatim>\<open>std::vector\<close> or beyond the terminator of a
  string, \<open>Overflow\<close> a signed subtraction that leaves the range of \<^verbatim>\<open>Int\<close>; C++ leaves
  both undefined. A function that may not return has an option result, \<open>None\<close> meaning
  that it runs forever.
\<close>

datatype error = MissingInformation | ParseError | OutOfBounds | Overflow

text \<open>The least value of an \<^verbatim>\<open>Int\<close>.\<close>

definition Int_min :: int where
  "Int_min = - (2 ^ 31)"

subsection \<open>The formula library\<close>

text \<open>
  \<^verbatim>\<open>EmpiricalFormula\<close> is not part of the sources at hand. The generator uses it through
  the operations below only, so they are taken as a parameter: \<open>'f\<close> is the type of
  formulas, \<open>'m\<close> the type of masses. \<open>ef_parse\<close> is the constructor from a string
  (\<open>None\<close> when the library rejects the string), \<open>ef_water\<close> and \<open>ef_cysteine\<close> are the
  values of \<^verbatim>\<open>EmpiricalFormula("H2O")\<close> and \<^verbatim>\<open>EmpiricalFormula("C4H8S2O2")\<close>, formula
  literals of the source.
\<close>

record ('f, 'm) formula_library =
  ef_parse :: "string \<Rightarrow> 'f option"
  ef_water :: 'f
  ef_cysteine :: 'f
  ef_plus :: "'f \<Rightarrow> 'f \<Rightarrow> 'f"
  ef_minus :: "'f \<Rightarrow> 'f \<Rightarrow> 'f"
  ef_setCharge0 :: "'f \<Rightarrow> 'f"
  ef_toString :: "'f \<Rightarrow> string"
  ef_getMonoWeight :: "'f \<Rightarrow> 'm"

subsection \<open>Strings\<close>

text \<open>\<^verbatim>\<open>s.substr(pos, n)\<close> for \<open>pos \<le> size\<close>.\<close>

definition substr :: "string \<Rightarrow> nat \<Rightarrow> nat \<Rightarrow> string" where
  "substr s pos n = take n (drop pos s)"

text \<open>
  \<^verbatim>\<open>s[i]\<close> on a \<^verbatim>\<open>std::string\<close>: the character at \<open>i\<close>, the terminator
  \<^verbatim>\<open>'\0'\<close> at \<open>i = size\<close>, undefined beyond.
\<close>

definition char_at :: "string \<Rightarrow> nat \<Rightarrow> error + char" where
  "char_at s i =
     (if i < length s then Inr (s ! i)
      else if i = length s then Inr (CHR 0x00)
      else Inl OutOfBounds)"

text \<open>\<^verbatim>\<open>v[i]\<close> on a \<^verbatim>\<open>std::vector\<close>.\<close>

definition vec_at :: "'a list \<Rightarrow> nat \<Rightarrow> error + 'a" where
  "vec_at v i = (if i < length v then Inr (v ! i) else Inl OutOfBounds)"

text \<open>
  Modelled from the spec: \<^verbatim>\<open>String::split\<close>, \<^verbatim>\<open>String::substitute\<close> and
  \<^verbatim>\<open>String::remove\<close> are missing from the sources. The spec has the configuration
  strings as \<^verbatim>\<open>symbol=formula\<close> and \<^verbatim>\<open>source->target\<close> and has the modification string
  split on sign boundaries: \<open>split\<close> cuts a string at every occurrence of the separator
  (one field more than there are separators; no field at all for the empty string),
  \<open>substitute\<close> replaces every occurrence, \<open>remove\<close> deletes every occurrence of a
  character. The separators used are \<open>=\<close>, \<open>->\<close> and \<open>#\<close>, none of them empty.
\<close>

fun split_loop :: "string \<Rightarrow> string \<Rightarrow> string \<Rightarrow> string list" where
  "split_loop splitter cur [] = [cur]"
| "split_loop splitter cur (c # cs) =
     (if splitter \<noteq> [] \<and> take (length splitter) (c # cs) = splitter
      then cur # split_loop splitter [] (drop (length splitter - 1) cs)
      else split_loop splitter (cur @ [c]) cs)"

definition split :: "string \<Rightarrow> string \<Rightarrow> string list" where
  "split s splitter = (if s = [] then [] else split_loop splitter [] s)"

fun substitute :: "string \<Rightarrow> string \<Rightarrow> string \<Rightarrow> string" where
  "substitute [] from to = []"
| "substitute (c # cs) from to =
     (if from \<noteq> [] \<and> take (length from) (c # cs) = from
      then to @ substitute (drop (length from - 1) cs) from to
      else c # substitute cs from to)"

definition substitute_char :: "string \<Rightarrow> char \<Rightarrow> char \<Rightarrow> string" where
  "substitute_char s from to = map (\<lambda>c. if c = from then to else c) s"

definition remove_char :: "string \<Rightarrow> char \<Rightarrow> string" where
  "remove_char s c = filter (\<lambda>x. x \<noteq> c) s"

text \<open>\<^verbatim>\<open>s.find(c)\<close>: the first position of \<open>c\<close>, \<open>None\<close> for \<^verbatim>\<open>npos\<close>.\<close>

fun find_char :: "string \<Rightarrow> char \<Rightarrow> nat option" where
  "find_char [] c = None"
| "find_char (x # xs) c = (if x = c then Some 0 else map_option Suc (find_char xs c))"

text \<open>\<^verbatim>\<open>min(p1, p2)\<close> on positions, \<^verbatim>\<open>npos\<close> being the largest value.\<close>

fun min_pos :: "nat option \<Rightarrow> nat option \<Rightarrow> nat option" where
  "min_pos None q = q"
| "min_pos (Some a) None = Some a"
| "min_pos (Some a) (Some b) = Some (min a b)"

text \<open>\<^verbatim>\<open>islower\<close> in the C locale.\<close>

definition islower :: "char \<Rightarrow> bool" where
  "islower c = (CHR ''a'' \<le> c \<and> c \<le> CHR ''z'')"

subsection \<open>Ordered containers\<close>

type_synonym ('k, 'v) std_map = "('k \<times> 'v) list"
type_synonym 'a std_set = "'a list"

definition map_keys :: "('k, 'v) std_map \<Rightarrow> 'k set" where
  "map_keys m = fst ` set m"

text \<open>\<^verbatim>\<open>m.find(k)\<close>.\<close>

definition map_find :: "('k, 'v) std_map \<Rightarrow> 'k \<Rightarrow> 'v option" where
  "map_find m k = map_of m k"

text \<open>\<^verbatim>\<open>m[k] = v\<close>: overwrite the entry of \<open>k\<close>, or insert one at its place in key order.\<close>

definition map_set :: "'k::linorder \<Rightarrow> 'v \<Rightarrow> ('k, 'v) std_map \<Rightarrow> ('k, 'v) std_map" where
  "map_set k v m =
     (if k \<in> map_keys m then map (\<lambda>(k', v'). if k' = k then (k', v) else (k', v')) m
      else insort_key fst (k, v) m)"

text \<open>
  \<^verbatim>\<open>m[k]\<close> read: \<open>map_touch\<close> is its effect on the map (an entry with a
  default-constructed, empty value is created for a new key), \<open>map_get\<close> its value.
\<close>

definition map_touch :: "'k::linorder \<Rightarrow> ('k, 'v list) std_map \<Rightarrow> ('k, 'v list) std_map" where
  "map_touch k m = (if k \<in> map_keys m then m else insort_key fst (k, []) m)"

definition map_get :: "('k, 'v list) std_map \<Rightarrow> 'k \<Rightarrow> 'v list" where
  "map_get m k = (case map_of m k of None \<Rightarrow> [] | Some v \<Rightarrow> v)"

text \<open>\<^verbatim>\<open>m.erase(k)\<close>.\<close>

definition map_erase :: "'k \<Rightarrow> ('k, 'v) std_map \<Rightarrow> ('k, 'v) std_map" where
  "map_erase k m = filter (\<lambda>e. fst e \<noteq> k) m"

text \<open>\<^verbatim>\<open>m[k].push_back(x)\<close> on a map of vectors and \<^verbatim>\<open>m[k].insert(x)\<close>,
  \<^verbatim>\<open>m[k].erase(x)\<close> on a map of sets.\<close>

definition map_push_back :: "'k::linorder \<Rightarrow> 'v \<Rightarrow> ('k, 'v list) std_map \<Rightarrow> ('k, 'v list) std_map" where
  "map_push_back k x m = map_set k (map_get m k @ [x]) m"

text \<open>
  The same on a map with keys of type \<^verbatim>\<open>char\<close>: the entries are kept in the order of
  the keys as signed values.
\<close>

definition signed_char :: "char \<Rightarrow> int" where
  "signed_char c = (if of_char c < (128 :: int) then of_char c else of_char c - 256)"

definition char_map_set :: "char \<Rightarrow> 'v \<Rightarrow> (char, 'v) std_map \<Rightarrow> (char, 'v) std_map" where
  "char_map_set k v m =
     (if k \<in> map_keys m then map (\<lambda>(k', v'). if k' = k then (k', v) else (k', v')) m
      else insort_key (\<lambda>e. signed_char (fst e)) (k, v) m)"

definition char_map_push_back :: "char \<Rightarrow> 'v \<Rightarrow> (char, 'v list) std_map \<Rightarrow> (char, 'v list) std_map" where
  "char_map_push_back k x m = char_map_set k (map_get m k @ [x]) m"

definition set_insert :: "'a::linorder \<Rightarrow> 'a std_set \<Rightarrow> 'a std_set" where
  "set_insert x s = insort_insert x s"

definition set_erase :: "'a \<Rightarrow> 'a std_set \<Rightarrow> 'a std_set" where
  "set_erase x s = filter (\<lambda>y. y \<noteq> x) s"

definition map_insert :: "'k::linorder \<Rightarrow> 'a::linorder \<Rightarrow> ('k, 'a std_set) std_map \<Rightarrow> ('k, 'a std_set) std_map" where
  "map_insert k x m = map_set k (set_insert x (map_get m k)) m"

definition map_set_erase :: "'k::linorder \<Rightarrow> 'a \<Rightarrow> ('k, 'a std_set) std_map \<Rightarrow> ('k, 'a std_set) std_map" where
  "map_set_erase k x m = map_set k (set_erase x (map_get m k)) m"

text \<open>
  Iterators of a \<^verbatim>\<open>std::set\<close>: \<open>set_begin\<close> is the least element, \<open>set_next x\<close> the
  least element above \<open>x\<close>; \<open>None\<close> is \<^verbatim>\<open>end()\<close>. Elements inserted during an
  iteration are met if and only if they lie above the current position.
\<close>

fun least_of :: "'a::linorder list \<Rightarrow> 'a option" where
  "least_of [] = None"
| "least_of (x # xs) = Some (fold min xs x)"

definition set_begin :: "'a::linorder std_set \<Rightarrow> 'a option" where
  "set_begin s = least_of s"

definition set_next :: "'a::linorder \<Rightarrow> 'a std_set \<Rightarrow> 'a option" where
  "set_next x s = least_of (filter (\<lambda>y. x < y) s)"

text \<open>A loop whose body may not return.\<close>

fun ofold :: "('a \<Rightarrow> 's \<Rightarrow> 's option) \<Rightarrow> 'a list \<Rightarrow> 's \<Rightarrow> 's option" where
  "ofold f [] s = Some s"
| "ofold f (x # xs) s = (case f x s of None \<Rightarrow> None | Some s' \<Rightarrow> ofold f xs s')"

subsection \<open>notInSeq\<close>

function notInSeq_loop :: "string \<Rightarrow> string \<Rightarrow> int \<Rightarrow> bool" where
  "notInSeq_loop res_seq query l =
     (if l \<le> int (length res_seq) - int (length query)
      then (if sort (substr res_seq (nat l) (length query)) = sort query then False
            else notInSeq_loop res_seq query (l + 1))
      else True)"
  by pat_completeness auto
termination
  by (relation "measure (\<lambda>(r, q, l). nat (int (length r) - int (length q) - l + 1))") auto

definition notInSeq :: "string \<Rightarrow> string \<Rightarrow> bool" where
  "notInSeq res_seq query = (if query = [] then False else notInSeq_loop res_seq query 0)"

subsection \<open>Reading the configuration\<close>

text \<open>The first error ends a computation, as the exception does.\<close>

definition ebind :: "error + 'a \<Rightarrow> ('a \<Rightarrow> error + 'b) \<Rightarrow> error + 'b" where
  "ebind x f = (case x of Inl e \<Rightarrow> Inl e | Inr a \<Rightarrow> f a)"

text \<open>
  \<^verbatim>\<open>map_target_to_formula[fields[0]] = EmpiricalFormula(fields[1])\<close> for every string of
  \<^verbatim>\<open>target_nucleotides\<close>; the right-hand side is evaluated first.
\<close>

fun parse_targets ::
  "('f, 'm) formula_library \<Rightarrow> string list \<Rightarrow> (string, 'f) std_map \<Rightarrow> error + (string, 'f) std_map" where
  "parse_targets L [] map_target_to_formula = Inr map_target_to_formula"
| "parse_targets L (s # ss) map_target_to_formula =
     (let fields = split s ''='' in
      ebind (vec_at fields 1) (\<lambda>f1.
      ebind (case ef_parse L f1 of None \<Rightarrow> Inl ParseError | Some ef \<Rightarrow> Inr ef) (\<lambda>ef.
      ebind (vec_at fields 0) (\<lambda>f0.
      parse_targets L ss (map_set f0 ef map_target_to_formula)))))"

text \<open>\<^verbatim>\<open>map_source_to_targets[fields[0][0]].push_back(fields[1][0])\<close> for every string of
  \<^verbatim>\<open>mappings\<close>.\<close>

fun parse_mappings ::
  "string list \<Rightarrow> (char, char list) std_map \<Rightarrow> error + (char, char list) std_map" where
  "parse_mappings [] map_source_to_targets = Inr map_source_to_targets"
| "parse_mappings (s # ss) map_source_to_targets =
     (let fields = split s ''->'' in
      ebind (vec_at fields 0) (\<lambda>f0.
      ebind (char_at f0 0) (\<lambda>source.
      ebind (vec_at fields 1) (\<lambda>f1.
      ebind (char_at f1 0) (\<lambda>target.
      parse_mappings ss (char_map_push_back source target map_source_to_targets))))))"

text \<open>\<^verbatim>\<open>source_nucleotides.push_back(s[0])\<close> for every string of \<^verbatim>\<open>mappings\<close>.\<close>

fun source_nucleotides_of :: "string list \<Rightarrow> error + char list" where
  "source_nucleotides_of [] = Inr []"
| "source_nucleotides_of (s # ss) =
     ebind (char_at s 0) (\<lambda>c. ebind (source_nucleotides_of ss) (\<lambda>cs. Inr (c # cs)))"

text \<open>
  The restriction sequence generated when none is given. One round of the loop over
  \<open>i\<close> prepends every source nucleotide to every combination of the round before. The
  test of the loop computes \<open>max_length - 1\<close>.
\<close>

definition grow_combinations :: "char list \<Rightarrow> string list \<Rightarrow> string list" where
  "grow_combinations source_nucleotides actual_combinations =
     concat (map (\<lambda>n. map (\<lambda>c. n # c) actual_combinations) source_nucleotides)"

function all_combinations_loop ::
  "char list \<Rightarrow> int \<Rightarrow> int \<Rightarrow> string list \<times> string list
     \<Rightarrow> error + string list \<times> string list" where
  "all_combinations_loop source_nucleotides max_length i (all_combinations, actual_combinations) =
     (if max_length - 1 < Int_min then Inl Overflow
      else if i \<le> max_length - 1
      then (let new_combinations = grow_combinations source_nucleotides actual_combinations
            in all_combinations_loop source_nucleotides max_length (i + 1)
                 (all_combinations @ new_combinations, new_combinations))
      else Inr (all_combinations, actual_combinations))"
  by pat_completeness auto
termination
  by (relation "measure (\<lambda>(s, m, i, p). nat (m - i))") auto

definition generated_restriction :: "char list \<Rightarrow> int \<Rightarrow> error + string" where
  "generated_restriction source_nucleotides max_length =
     (let singles = map (\<lambda>c. [c]) source_nucleotides
      in case all_combinations_loop source_nucleotides max_length 1 (singles, singles) of
           Inl e \<Rightarrow> Inl e
         | Inr (all_combinations, actual_combinations) \<Rightarrow> Inr (concat all_combinations))"

definition restriction_or_generated :: "char list \<Rightarrow> int \<Rightarrow> string \<Rightarrow> error + string" where
  "restriction_or_generated source_nucleotides max_length sequence_restriction =
     (if sequence_restriction = [] then generated_restriction source_nucleotides max_length
      else Inr sequence_restriction)"

text \<open>
  The loop that erases the trivial rules, over the map in the order of its keys: a
  source whose only target is itself is dropped, a source with one other target is
  renamed in the restriction sequence and dropped, a source with several targets stays.
  The vectors of the map are never empty.
\<close>

fun erase_trivial ::
  "(char, char list) std_map \<Rightarrow> string \<Rightarrow> (char, char list) std_map \<times> string" where
  "erase_trivial [] sequence_restriction = ([], sequence_restriction)"
| "erase_trivial ((source, targets) # rest) sequence_restriction =
     (case targets of
        [first_target] \<Rightarrow>
          (if source = first_target then erase_trivial rest sequence_restriction
           else erase_trivial rest (substitute_char sequence_restriction source first_target))
      | _ \<Rightarrow>
          (let (m, r) = erase_trivial rest sequence_restriction in ((source, targets) # m, r)))"

text \<open>
  The modification strings. A sub-formula is a formula with the flag "subtractive", a
  modification a list of them.
\<close>

type_synonym 'f NucleotideModification = "('f \<times> bool) list"

fun parse_subformulae ::
  "('f, 'm) formula_library \<Rightarrow> string list \<Rightarrow> error + 'f NucleotideModification" where
  "parse_subformulae L [] = Inr []"
| "parse_subformulae L (e # ems) =
     (if e = [] then parse_subformulae L ems
      else
        (let mod_is_subtractive = (hd e = CHR ''-'');
             e' = (if hd e = CHR ''-'' then remove_char e (CHR ''-'')
                   else if hd e = CHR ''+'' then remove_char e (CHR ''+'')
                   else e)
         in ebind (case ef_parse L e' of None \<Rightarrow> Inl ParseError | Some ef \<Rightarrow> Inr ef) (\<lambda>ef.
            ebind (parse_subformulae L ems) (\<lambda>rest.
            Inr ((ef_setCharge0 L ef, mod_is_subtractive) # rest)))))"

definition parse_modification ::
  "('f, 'm) formula_library \<Rightarrow> string \<Rightarrow> error + (string \<times> 'f NucleotideModification)" where
  "parse_modification L m =
     ebind (char_at m 1) (\<lambda>c.
       if c \<noteq> CHR '':'' then Inl MissingInformation
       else
         (let target_nucleotide = [hd m];
              m2 = substitute (substitute (drop 2 m) ''-'' ''#-'') ''+'' ''#+''
          in ebind (parse_subformulae L (split m2 ''#'')) (\<lambda>nucleotide_modification.
             Inr (target_nucleotide, nucleotide_modification))))"

fun parse_modifications ::
  "('f, 'm) formula_library \<Rightarrow> string list \<Rightarrow> (string, 'f NucleotideModification list) std_map
     \<Rightarrow> error + (string, 'f NucleotideModification list) std_map" where
  "parse_modifications L [] map_to_nucleotide_modifications = Inr map_to_nucleotide_modifications"
| "parse_modifications L (m # ms) map_to_nucleotide_modifications =
     ebind (parse_modification L m) (\<lambda>(target_nucleotide, nucleotide_modification).
       parse_modifications L ms
         (map_push_back target_nucleotide nucleotide_modification map_to_nucleotide_modifications))"

subsection \<open>generateTargetSequences\<close>

text \<open>
  The number of positions of \<open>res_seq\<close> that count as valid: a character that is no
  source counts once, a source counts once for each of its targets equal to it.
\<close>

definition valid_count :: "string \<Rightarrow> (char, char list) std_map \<Rightarrow> nat" where
  "valid_count res_seq map_source2target =
     sum_list (map (\<lambda>c. case map_find map_source2target c of
                          None \<Rightarrow> 1
                        | Some targets \<Rightarrow> length (filter (\<lambda>t. c = t) targets)) res_seq)"

text \<open>
  The body is the \<^verbatim>\<open>while\<close> loop from \<open>param_pos\<close> followed by the validity check, so
  the loop going on at \<open>param_pos + 1\<close> is the function at \<open>param_pos + 1\<close>. The output
  parameter \<open>target_sequences\<close> is passed through.
\<close>

function generateTargetSequences ::
  "string \<Rightarrow> nat \<Rightarrow> (char, char list) std_map \<Rightarrow> string list \<Rightarrow> string list" where
  "generateTargetSequences res_seq param_pos map_source2target target_sequences =
     (if param_pos < length res_seq
      then (case map_find map_source2target (res_seq ! param_pos) of
              None \<Rightarrow> generateTargetSequences res_seq (param_pos + 1) map_source2target target_sequences
            | Some targets \<Rightarrow>
                generateTargetSequences res_seq (param_pos + 1) map_source2target
                  (fold (\<lambda>t acc. if res_seq ! param_pos \<noteq> t
                                  then generateTargetSequences (res_seq[param_pos := t]) (param_pos + 1)
                                         map_source2target acc
                                  else acc)
                        targets target_sequences))
      else (if valid_count res_seq map_source2target = length res_seq
            then target_sequences @ [res_seq] else target_sequences))"
  by pat_completeness auto
termination
  by (relation "measure (\<lambda>(r, p, m, t). length r - p)") auto

declare generateTargetSequences.simps [simp del]

subsection \<open>Generating the combinations\<close>

text \<open>
  The result: \<open>formula2mass\<close> maps a formula string to a mass, \<open>mod_combinations\<close> maps
  it to the set of nucleotide style strings with that formula.
\<close>

type_synonym mod_combinations_map = "(string, string std_set) std_map"

record 'm NuXLModificationMassesResult =
  formula2mass :: "(string, 'm) std_map"
  mod_combinations :: mod_combinations_map

text \<open>
  One modified nucleotide: the sub-formulae of a modification are added to or subtracted
  from the formula of the nucleotide, and appended to its name with their sign.
\<close>

definition apply_subformula ::
  "('f, 'm) formula_library \<Rightarrow> 'f \<times> bool \<Rightarrow> 'f \<times> string \<Rightarrow> 'f \<times> string" where
  "apply_subformula L sf acc =
     (let sum_formula = fst acc; nt = snd acc;
          mod_ef = fst sf; mod_str = ef_toString L (fst sf)
      in if snd sf then (ef_minus L sum_formula mod_ef, nt @ ''-'' @ mod_str)
         else (ef_plus L sum_formula mod_ef, nt @ ''+'' @ mod_str))"

text \<open>
  The set \<open>formulas_of_modified_nucleotide\<close> is declared empty for each nucleotide, is
  looked up and is never inserted into.
\<close>

definition add_modified_nucleotide ::
  "('f, 'm) formula_library \<Rightarrow> string \<Rightarrow> 'f \<Rightarrow> string std_set \<Rightarrow> 'f NucleotideModification
     \<Rightarrow> 'f list \<times> mod_combinations_map \<Rightarrow> 'f list \<times> mod_combinations_map" where
  "add_modified_nucleotide L target_nucleotide target_nucleotide_formula
       formulas_of_modified_nucleotide nt_mod st =
     (let (actual_combinations, mc) = st;
          (sum_formula, nt) = fold (apply_subformula L) nt_mod (target_nucleotide_formula, target_nucleotide)
      in if ef_toString L sum_formula \<notin> set formulas_of_modified_nucleotide
         then (actual_combinations @ [sum_formula], map_insert (ef_toString L sum_formula) nt mc)
         else (actual_combinations, mc))"

definition modified_nucleotides ::
  "('f, 'm) formula_library \<Rightarrow> (string, 'f) std_map \<Rightarrow> (string, 'f NucleotideModification list) std_map
     \<Rightarrow> 'f list \<times> mod_combinations_map" where
  "modified_nucleotides L map_target_to_formula map_to_nucleotide_modifications =
     fold (\<lambda>(target_nucleotide, target_nucleotide_formula) st.
             (let nt_mods = map_get map_to_nucleotide_modifications target_nucleotide;
                  formulas_of_modified_nucleotide = []
              in fold (add_modified_nucleotide L target_nucleotide target_nucleotide_formula
                         formulas_of_modified_nucleotide) nt_mods st))
          map_target_to_formula ([], [])"

text \<open>
  The loop over the ambiguities of \<open>ac\<close>: the set \<open>mod_combinations[kac]\<close> is iterated
  while \<open>target_nucleotide + s\<close> is inserted into \<open>mod_combinations[knew]\<close>. \<open>it\<close> is the
  iterator. When both keys are the same the loop inserts into the set it iterates, and
  it need not end.
\<close>

partial_function (option) insert_ambiguities ::
  "string \<Rightarrow> string \<Rightarrow> string \<Rightarrow> string option \<Rightarrow> mod_combinations_map \<Rightarrow> mod_combinations_map option" where
  "insert_ambiguities target_nucleotide kac knew it mc =
     (case it of
        None \<Rightarrow> Some mc
      | Some s \<Rightarrow>
          insert_ambiguities target_nucleotide kac knew
            (set_next s (map_get (map_insert knew (target_nucleotide @ s) mc) kac))
            (map_insert knew (target_nucleotide @ s) mc))"

declare insert_ambiguities.simps [code]

text \<open>
  One step of chain extension: the target nucleotide is put before the combination
  \<open>ac\<close>, one water is lost. The state is \<open>new_combinations\<close>, \<open>all_combinations\<close> and
  \<open>mod_combinations\<close>.
\<close>

type_synonym 'f chain_state = "'f list \<times> 'f list \<times> mod_combinations_map"

definition extend_combination ::
  "('f, 'm) formula_library \<Rightarrow> string \<Rightarrow> 'f \<Rightarrow> 'f \<Rightarrow> 'f chain_state \<Rightarrow> 'f chain_state option" where
  "extend_combination L target_nucleotide target_nucleotide_formula ac st =
     (let (new_combinations, all_combinations, mc) = st;
          f = ef_minus L (ef_plus L target_nucleotide_formula ac) (ef_water L);
          mc1 = map_touch (ef_toString L ac) mc
      in case insert_ambiguities target_nucleotide (ef_toString L ac) (ef_toString L f)
                (set_begin (map_get mc1 (ef_toString L ac))) mc1 of
           None \<Rightarrow> None
         | Some mc2 \<Rightarrow> Some (new_combinations @ [f], all_combinations @ [f], mc2))"

text \<open>One round: every target nucleotide, in key order, before every combination of the
  round before.\<close>

definition chain_round ::
  "('f, 'm) formula_library \<Rightarrow> (string, 'f) std_map \<Rightarrow> 'f chain_state \<Rightarrow> 'f chain_state option" where
  "chain_round L map_target_to_formula st =
     (let (actual_combinations, all_combinations, mc) = st
      in ofold (\<lambda>(target_nucleotide, target_nucleotide_formula).
                  ofold (extend_combination L target_nucleotide target_nucleotide_formula)
                        actual_combinations)
               map_target_to_formula ([], all_combinations, mc))"

text \<open>The loop over \<open>i\<close>, whose test computes \<open>max_length - 1\<close>.\<close>

function chain_loop ::
  "('f, 'm) formula_library \<Rightarrow> (string, 'f) std_map \<Rightarrow> int \<Rightarrow> int \<Rightarrow> 'f chain_state
     \<Rightarrow> (error + 'f chain_state) option" where
  "chain_loop L map_target_to_formula max_length i st =
     (if max_length - 1 < Int_min then Some (Inl Overflow)
      else if i < max_length - 1
      then (case chain_round L map_target_to_formula st of
              None \<Rightarrow> None
            | Some st' \<Rightarrow> chain_loop L map_target_to_formula max_length (i + 1) st')
      else Some (Inr st))"
  by pat_completeness auto
termination
  by (relation "measure (\<lambda>(L, t, m, i, s). nat (m - 1 - i))") auto

declare chain_loop.simps [simp del]

text \<open>The generated combinations: \<open>all_combinations\<close> and \<open>mod_combinations\<close>.\<close>

definition generate_combinations ::
  "('f, 'm) formula_library \<Rightarrow> (string, 'f) std_map \<Rightarrow> (string, 'f NucleotideModification list) std_map
     \<Rightarrow> int \<Rightarrow> (error + 'f list \<times> mod_combinations_map) option" where
  "generate_combinations L map_target_to_formula map_to_nucleotide_modifications max_length =
     (let (actual_combinations, mc) =
            modified_nucleotides L map_target_to_formula map_to_nucleotide_modifications
      in case chain_loop L map_target_to_formula max_length 0
                (actual_combinations, actual_combinations, mc) of
           None \<Rightarrow> None
         | Some (Inl e) \<Rightarrow> Some (Inl e)
         | Some (Inr (new_combinations, all_combinations, mc')) \<Rightarrow>
             Some (Inr (all_combinations, mc')))"

definition masses_of ::
  "('f, 'm) formula_library \<Rightarrow> 'f list \<Rightarrow> (string, 'm) std_map" where
  "masses_of L all_combinations =
     fold (\<lambda>f m. map_set (ef_toString L f) (ef_getMonoWeight L f) m) all_combinations []"

subsection \<open>Filtering on restrictions\<close>

text \<open>
  The nucleotides of a nucleotide style string: the string up to its first \<open>-\<close> or
  \<open>+\<close>, sorted. The sorted string is looked at for its characters and its length and
  compared for equality with other sorted strings, so that the order in which
  \<^verbatim>\<open>std::sort\<close> puts the characters from \<open>0x80\<close> on does not bear on any outcome.
\<close>

definition strip_modifications :: "string \<Rightarrow> string" where
  "strip_modifications s =
     (case min_pos (find_char s (CHR ''-'')) (find_char s (CHR ''+'')) of
        None \<Rightarrow> s
      | Some p \<Rightarrow> take p s)"

definition sorted_composition :: "string \<Rightarrow> string" where
  "sorted_composition s = sort (strip_modifications s)"

type_synonym 'm filter_state = "(string \<times> 'm) list \<times> (string \<times> string) list"

text \<open>
  The body of the inner loop, for the ambiguity \<open>s\<close> of \<open>formula\<close>. The state is
  \<open>unique_nucleotide_and_mod_composition\<close> and \<open>violates_restriction\<close>. The first four
  checks leave the body (\<^verbatim>\<open>continue\<close>), the last two do not.
\<close>

definition check_ambiguity ::
  "string list \<Rightarrow> char set \<Rightarrow> int \<Rightarrow> string list \<Rightarrow> string \<Rightarrow> 'm \<Rightarrow> string
     \<Rightarrow> 'm filter_state \<Rightarrow> 'm filter_state" where
  "check_ambiguity nt_groups can_xl max_length target_sequences formula mass s st =
     (let (unique, violates_restriction) = st;
          nucleotide_style_formula = sorted_composition s;
          count_lower = length (filter islower nucleotide_style_formula);
          has_xl_nt = list_ex (\<lambda>c. c \<in> can_xl) nucleotide_style_formula;
          found_in_n_groups =
            length (filter (\<lambda>n. list_ex (\<lambda>c. c \<in> set n) nucleotide_style_formula) nt_groups);
          violation_count =
            length (filter (\<lambda>current_target_seq. notInSeq current_target_seq nucleotide_style_formula)
                      target_sequences);
          containment_violated = (violation_count = length target_sequences)
      in if count_lower \<ge> 2 then (unique, violates_restriction @ [(formula, s)])
         else if \<not> has_xl_nt then (unique, violates_restriction @ [(formula, s)])
         else if int (length nucleotide_style_formula) > max_length
           then (unique, violates_restriction @ [(formula, s)])
         else if found_in_n_groups > 1 then (unique, violates_restriction @ [(formula, s)])
         else
           (let v1 = (if containment_violated then violates_restriction @ [(formula, s)]
                      else violates_restriction);
                v2 = (if (nucleotide_style_formula, mass) \<in> set unique then v1 @ [(formula, s)]
                      else v1)
            in (unique @ [(nucleotide_style_formula, mass)], v2)))"

text \<open>The loop over \<open>formula2mass\<close>; reading \<open>mod_combinations[formula]\<close> creates the
  entry when there is none.\<close>

definition restriction_filter ::
  "string list \<Rightarrow> char set \<Rightarrow> int \<Rightarrow> string list \<Rightarrow> (string, 'm) std_map
     \<Rightarrow> mod_combinations_map \<Rightarrow> mod_combinations_map \<times> 'm filter_state" where
  "restriction_filter nt_groups can_xl max_length target_sequences f2m mc =
     fold (\<lambda>(formula, mass) (mc, st).
             (let mc1 = map_touch formula mc;
                  ambiguities = map_get mc1 formula
              in (mc1, fold (check_ambiguity nt_groups can_xl max_length target_sequences formula mass)
                         ambiguities st)))
          f2m (mc, ([], []))"

definition erase_violations :: "(string \<times> string) list \<Rightarrow> mod_combinations_map \<Rightarrow> mod_combinations_map" where
  "erase_violations violates_restriction mc =
     fold (\<lambda>(chemical_formula, s) mc. map_set_erase chemical_formula s mc) violates_restriction mc"

text \<open>The erase loop over \<open>mod_combinations\<close>: a key with an empty set leaves both maps.\<close>

fun erase_empty ::
  "mod_combinations_map \<Rightarrow> (string, 'm) std_map \<Rightarrow> (string, 'm) std_map \<times> mod_combinations_map" where
  "erase_empty [] f2m = (f2m, [])"
| "erase_empty ((k, ambiguities) # rest) f2m =
     (if ambiguities = [] then erase_empty rest (map_erase k f2m)
      else (let (f2m', mc') = erase_empty rest f2m in (f2m', (k, ambiguities) # mc')))"

definition cysteine_adduct_string :: string where
  "cysteine_adduct_string = ''C4H8S2O2''"

definition add_cysteine_adduct ::
  "('f, 'm) formula_library \<Rightarrow> bool \<Rightarrow> (string, 'm) std_map \<times> mod_combinations_map
     \<Rightarrow> (string, 'm) std_map \<times> mod_combinations_map" where
  "add_cysteine_adduct L cysteine_adduct r =
     (if cysteine_adduct
      then (map_set (ef_toString L (ef_cysteine L)) (ef_getMonoWeight L (ef_cysteine L)) (fst r),
            map_insert (ef_toString L (ef_cysteine L)) cysteine_adduct_string (snd r))
      else r)"

text \<open>The loop that prints the adducts reads \<open>mod_combinations[m.first]\<close> for every key
  of \<open>formula2mass\<close> but that of the cysteine adduct.\<close>

definition print_adducts ::
  "('f, 'm) formula_library \<Rightarrow> bool \<Rightarrow> (string, 'm) std_map \<Rightarrow> mod_combinations_map
     \<Rightarrow> mod_combinations_map" where
  "print_adducts L cysteine_adduct f2m mc =
     fold (\<lambda>(k, mass) mc.
             if cysteine_adduct \<and> k = ef_toString L (ef_cysteine L) then mc else map_touch k mc)
          f2m mc"

definition filter_and_assemble ::
  "('f, 'm) formula_library \<Rightarrow> string list \<Rightarrow> char set \<Rightarrow> int \<Rightarrow> bool \<Rightarrow> string list
     \<Rightarrow> 'f list \<Rightarrow> mod_combinations_map \<Rightarrow> 'm NuXLModificationMassesResult" where
  "filter_and_assemble L nt_groups can_xl max_length cysteine_adduct target_sequences
       all_combinations mc =
     (let f2m = masses_of L all_combinations;
          (mc1, st) = restriction_filter nt_groups can_xl max_length target_sequences f2m mc;
          mc2 = erase_violations (snd st) mc1;
          (f2m3, mc3) = erase_empty mc2 f2m;
          (f2m4, mc4) = add_cysteine_adduct L cysteine_adduct (f2m3, mc3)
      in \<lparr>formula2mass = f2m4, mod_combinations = print_adducts L cysteine_adduct f2m4 mc4\<rparr>)"

subsection \<open>initModificationMassesNA\<close>

text \<open>
  What the function reads from its arguments before it generates: the formulas of the
  target nucleotides, the rules left with several targets, the restriction sequence after
  generation and renaming, and the modifications.
\<close>

type_synonym 'f configuration =
  "(string, 'f) std_map \<times> (char, char list) std_map \<times> string
     \<times> (string, 'f NucleotideModification list) std_map"

definition read_configuration ::
  "('f, 'm) formula_library \<Rightarrow> string list \<Rightarrow> string list \<Rightarrow> string list \<Rightarrow> string \<Rightarrow> int
     \<Rightarrow> error + 'f configuration" where
  "read_configuration L target_nucleotides mappings modifications sequence_restriction max_length =
     ebind (parse_targets L target_nucleotides []) (\<lambda>map_target_to_formula.
     ebind (parse_mappings mappings []) (\<lambda>map_source_to_targets.
     ebind (source_nucleotides_of mappings) (\<lambda>source_nucleotides.
     ebind (restriction_or_generated source_nucleotides max_length sequence_restriction) (\<lambda>sr.
       (let (map_source_to_targets', sr') = erase_trivial map_source_to_targets sr
        in ebind (parse_modifications L modifications []) (\<lambda>map_to_nucleotide_modifications.
             Inr (map_target_to_formula, map_source_to_targets', sr',
                  map_to_nucleotide_modifications)))))))"

definition initModificationMassesNA ::
  "('f, 'm) formula_library \<Rightarrow> string list \<Rightarrow> string list \<Rightarrow> char set \<Rightarrow> string list
     \<Rightarrow> string list \<Rightarrow> string \<Rightarrow> bool \<Rightarrow> int
     \<Rightarrow> (error + 'm NuXLModificationMassesResult) option" where
  "initModificationMassesNA L target_nucleotides nt_groups can_xl mappings modifications
       sequence_restriction cysteine_adduct max_length =
     (case read_configuration L target_nucleotides mappings modifications sequence_restriction
             max_length of
        Inl e \<Rightarrow> Some (Inl e)
      | Inr (map_target_to_formula, map_source_to_targets, sr, map_to_nucleotide_modifications) \<Rightarrow>
          (let target_sequences = generateTargetSequences sr 0 map_source_to_targets []
           in case generate_combinations L map_target_to_formula map_to_nucleotide_modifications
                     max_length of
                None \<Rightarrow> None
              | Some (Inl e) \<Rightarrow> Some (Inl e)
              | Some (Inr (all_combinations, mc)) \<Rightarrow>
                  Some (Inr (filter_and_assemble L nt_groups can_xl max_length cysteine_adduct
                               target_sequences all_combinations mc))))"

subsection \<open>A formula library to run the generator on\<close>

text \<open>
  Modelled from the spec: \<^verbatim>\<open>EmpiricalFormula\<close> is missing from the sources. The spec's
  formula algebra parses a formula string into atom counts, adds and subtracts formulas,
  renders a canonical string and computes a mass. \<open>atoms_library\<close> does so: a formula is
  a list of element symbols with their counts, in the order of the symbols and without
  zero counts; a string is a sequence of element symbols (a capital, then small letters),
  each with an optional count; the mass is in thousandths of a mass unit. It serves to
  run the generator on concrete inputs; the theorems below are about any library.
\<close>

type_synonym atoms = "(string \<times> int) list"

definition isupper :: "char \<Rightarrow> bool" where
  "isupper c = (CHR ''A'' \<le> c \<and> c \<le> CHR ''Z'')"

definition isdigit :: "char \<Rightarrow> bool" where
  "isdigit c = (CHR ''0'' \<le> c \<and> c \<le> CHR ''9'')"

definition number_of_digits :: "string \<Rightarrow> int" where
  "number_of_digits ds = fold (\<lambda>d n. 10 * n + (int (of_char d) - 48)) ds 0"

definition add_atoms :: "string \<Rightarrow> int \<Rightarrow> atoms \<Rightarrow> atoms" where
  "add_atoms el n f =
     filter (\<lambda>e. snd e \<noteq> 0) (map_set el ((case map_of f el of None \<Rightarrow> 0 | Some k \<Rightarrow> k) + n) f)"

function parse_atoms :: "string \<Rightarrow> atoms option" where
  "parse_atoms [] = Some []"
| "parse_atoms (c # cs) =
     (if isupper c
      then (let el = c # takeWhile islower cs;
                ds = takeWhile isdigit (dropWhile islower cs);
                n = (if ds = [] then 1 else number_of_digits ds)
            in map_option (add_atoms el n) (parse_atoms (dropWhile isdigit (dropWhile islower cs))))
      else None)"
  by pat_completeness auto
termination
  by (relation "measure length")
     (auto intro: le_imp_less_Suc order_trans [OF length_dropWhile_le length_dropWhile_le])

definition atoms_plus :: "atoms \<Rightarrow> atoms \<Rightarrow> atoms" where
  "atoms_plus f g = fold (\<lambda>(el, n). add_atoms el n) g f"

definition atoms_minus :: "atoms \<Rightarrow> atoms \<Rightarrow> atoms" where
  "atoms_minus f g = fold (\<lambda>(el, n). add_atoms el (- n)) g f"

function digits_of_nat :: "nat \<Rightarrow> string" where
  "digits_of_nat n =
     (if n < 10 then [char_of (48 + n)] else digits_of_nat (n div 10) @ [char_of (48 + n mod 10)])"
  by pat_completeness auto
termination
  by (relation "measure id") auto

definition digits_of_int :: "int \<Rightarrow> string" where
  "digits_of_int i = (if i < 0 then CHR ''-'' # digits_of_nat (nat (- i)) else digits_of_nat (nat i))"

definition atoms_toString :: "atoms \<Rightarrow> string" where
  "atoms_toString f = concat (map (\<lambda>(el, n). el @ digits_of_int n) f)"

definition atom_mass :: "string \<Rightarrow> int" where
  "atom_mass el =
     (if el = ''H'' then 1008 else if el = ''C'' then 12000 else if el = ''N'' then 14003
      else if el = ''O'' then 15995 else if el = ''P'' then 30974 else if el = ''S'' then 31972
      else 0)"

definition atoms_mass :: "atoms \<Rightarrow> int" where
  "atoms_mass f = sum_list (map (\<lambda>(el, n). atom_mass el * n) f)"

definition atoms_library :: "(atoms, int) formula_library" where
  "atoms_library =
     \<lparr>ef_parse = parse_atoms,
      ef_water = [(''H'', 2), (''O'', 1)],
      ef_cysteine = [(''C'', 4), (''H'', 8), (''O'', 2), (''S'', 2)],
      ef_plus = atoms_plus,
      ef_minus = atoms_minus,
      ef_setCharge0 = (\<lambda>f. f),
      ef_toString = atoms_toString,
      ef_getMonoWeight = atoms_mass\<rparr>"

subsection \<open>Reference definitions for the properties\<close>

text \<open>
  Every string of length \<open>k\<close> over a list of symbols, the first symbol varying slowest;
  a symbol listed twice gives its strings twice.
\<close>

primrec words_of_length :: "char list \<Rightarrow> nat \<Rightarrow> string list" where
  "words_of_length alphabet 0 = [[]]"
| "words_of_length alphabet (Suc k) =
     concat (map (\<lambda>n. map (\<lambda>w. n # w) (words_of_length alphabet k)) alphabet)"

text \<open>The strings of length 1, then of length 2, and so on up to \<open>n\<close>, as one string.\<close>

definition words_up_to :: "char list \<Rightarrow> nat \<Rightarrow> string" where
  "words_up_to alphabet n = concat (concat (map (words_of_length alphabet) [1..<Suc n]))"

text \<open>The first character of a string, the terminator for the empty string.\<close>

definition first_char :: "string \<Rightarrow> char" where
  "first_char s = (case s of [] \<Rightarrow> CHR 0x00 | c # cs \<Rightarrow> c)"

text \<open>The source symbol that \<open>parse_mappings\<close> reads from a mapping string.\<close>

definition rule_source :: "string \<Rightarrow> char" where
  "rule_source s = (case split s ''->'' of [] \<Rightarrow> CHR 0x00 | f0 # fs \<Rightarrow> first_char f0)"

text \<open>The trivial rule \<open>c->c\<close>.\<close>

definition trivial_rule :: "char \<Rightarrow> string" where
  "trivial_rule c = [c, CHR ''-'', CHR ''>'', c]"

text \<open>
  \<open>grows mc mc'\<close>: from \<open>mc\<close> to \<open>mc'\<close> no key and no string is lost, and keys stay
  distinct. \<open>inserted N kac knew it mc mc'\<close> is what one run of the loop over the
  ambiguities does, from the iterator position \<open>it\<close> on.
\<close>

definition grows :: "mod_combinations_map \<Rightarrow> mod_combinations_map \<Rightarrow> bool" where
  "grows mc mc' \<longleftrightarrow>
     (\<forall>k. set (map_get mc k) \<subseteq> set (map_get mc' k)) \<and> map_keys mc \<subseteq> map_keys mc'
     \<and> (distinct (map fst mc) \<longrightarrow> distinct (map fst mc'))"

definition inserted ::
  "string \<Rightarrow> string \<Rightarrow> string \<Rightarrow> string option \<Rightarrow> mod_combinations_map \<Rightarrow> mod_combinations_map \<Rightarrow> bool" where
  "inserted N kac knew it mc mc' \<longleftrightarrow>
     grows mc mc'
     \<and> map_keys mc' \<subseteq> insert knew (map_keys mc)
     \<and> (\<forall>s0 s. it = Some s0 \<and> s \<in> set (map_get mc kac) \<and> s0 \<le> s
            \<longrightarrow> N @ s \<in> set (map_get mc' knew))"

text \<open>The formula of a nucleotide put before a combination: their sum less one water.\<close>

definition condensation :: "('f, 'm) formula_library \<Rightarrow> 'f \<Rightarrow> 'f \<Rightarrow> 'f" where
  "condensation L target_nucleotide_formula ac =
     ef_minus L (ef_plus L target_nucleotide_formula ac) (ef_water L)"

text \<open>The formulas of one round of chain extension, in the order they are made.\<close>

definition round_formulas ::
  "('f, 'm) formula_library \<Rightarrow> (string, 'f) std_map \<Rightarrow> 'f list \<Rightarrow> 'f list" where
  "round_formulas L t2f actual =
     concat (map (\<lambda>(N, F_N). map (condensation L F_N) actual) t2f)"

text \<open>
  The generated maps are well keyed: the keys of \<open>mod_combinations\<close> are distinct, and
  each is the string of a formula of \<open>all_combinations\<close>.
\<close>

definition well_keyed :: "('f, 'm) formula_library \<Rightarrow> 'f list \<Rightarrow> mod_combinations_map \<Rightarrow> bool" where
  "well_keyed L all_combinations mc \<longleftrightarrow>
     distinct (map fst mc) \<and> map_keys mc \<subseteq> ef_toString L ` set all_combinations"

text \<open>The target sequences that the function generates from its arguments.\<close>

definition target_sequences_of ::
  "('f, 'm) formula_library \<Rightarrow> string list \<Rightarrow> string list \<Rightarrow> string list \<Rightarrow> string \<Rightarrow> int
     \<Rightarrow> string list" where
  "target_sequences_of L target_nucleotides mappings modifications sequence_restriction max_length =
     (case read_configuration L target_nucleotides mappings modifications sequence_restriction
             max_length of
        Inl e \<Rightarrow> []
      | Inr (map_target_to_formula, map_source_to_targets, sr, map_to_nucleotide_modifications) \<Rightarrow>
          generateTargetSequences sr 0 map_source_to_targets [])"

text \<open>
  The first five rules of the filter on a nucleotide style string \<open>s\<close>: at most one
  lower case symbol, a cross-linkable symbol, the length, one group at most, and
  containment in a target sequence.
\<close>

definition passes_rules :: "string list \<Rightarrow> char set \<Rightarrow> int \<Rightarrow> string list \<Rightarrow> string \<Rightarrow> bool" where
  "passes_rules nt_groups can_xl max_length target_sequences s \<longleftrightarrow>
     length (filter islower (sorted_composition s)) < 2
     \<and> (\<exists>c\<in>set (sorted_composition s). c \<in> can_xl)
     \<and> int (length (sorted_composition s)) \<le> max_length
     \<and> length (filter (\<lambda>n. \<exists>c\<in>set (sorted_composition s). c \<in> set n) nt_groups) \<le> 1
     \<and> (\<exists>t\<in>set target_sequences. \<not> notInSeq t (sorted_composition s))"

text \<open>
  A nucleotide with one modification applied: the formula and the nucleotide style
  string. The empty modification leaves both as they are.
\<close>

definition modified_nucleotide ::
  "('f, 'm) formula_library \<Rightarrow> string \<Rightarrow> 'f \<Rightarrow> 'f NucleotideModification \<Rightarrow> 'f \<times> string" where
  "modified_nucleotide L target_nucleotide target_nucleotide_formula nt_mod =
     fold (apply_subformula L) nt_mod (target_nucleotide_formula, target_nucleotide)"

text \<open>
  The state of the filter when its loop is done, within a run of the function: the list
  \<open>unique_nucleotide_and_mod_composition\<close> and the list \<open>violates_restriction\<close>.
\<close>

definition filter_state_of ::
  "('f, 'm) formula_library \<Rightarrow> string list \<Rightarrow> string list \<Rightarrow> char set \<Rightarrow> string list
     \<Rightarrow> string list \<Rightarrow> string \<Rightarrow> int \<Rightarrow> 'm filter_state option" where
  "filter_state_of L target_nucleotides nt_groups can_xl mappings modifications
       sequence_restriction max_length =
     (case read_configuration L target_nucleotides mappings modifications sequence_restriction
             max_length of
        Inl e \<Rightarrow> None
      | Inr (map_target_to_formula, map_source_to_targets, sr, map_to_nucleotide_modifications) \<Rightarrow>
          (case generate_combinations L map_target_to_formula map_to_nucleotide_modifications
                  max_length of
             None \<Rightarrow> None
           | Some (Inl e) \<Rightarrow> None
           | Some (Inr (all_combinations, mc)) \<Rightarrow>
               Some (snd (restriction_filter nt_groups can_xl max_length
                            (generateTargetSequences sr 0 map_source_to_targets [])
                            (masses_of L all_combinations) mc))))"

text \<open>
  The pairs that the filter visits, in the order of its two loops: the entries of
  \<open>formula2mass\<close> in key order, and for each the ambiguities of the formula.
\<close>

type_synonym 'm filter_item = "string \<times> 'm \<times> string"

definition filter_items :: "(string, 'm) std_map \<Rightarrow> mod_combinations_map \<Rightarrow> 'm filter_item list" where
  "filter_items f2m mc =
     concat (map (\<lambda>(formula, mass). map (\<lambda>s. (formula, mass, s)) (map_get mc formula)) f2m)"

definition check_item ::
  "string list \<Rightarrow> char set \<Rightarrow> int \<Rightarrow> string list \<Rightarrow> 'm filter_item \<Rightarrow> 'm filter_state
     \<Rightarrow> 'm filter_state" where
  "check_item nt_groups can_xl max_length target_sequences x st =
     check_ambiguity nt_groups can_xl max_length target_sequences (fst x) (fst (snd x))
       (snd (snd x)) st"

text \<open>The sorted composition and the mass of a pair.\<close>

definition item_key :: "'m filter_item \<Rightarrow> string \<times> 'm" where
  "item_key x = (sorted_composition (snd (snd x)), fst (snd x))"

text \<open>
  The filter as the rules have it: a pair is accepted when it passes the first five
  rules and its sorted composition and mass have not been accepted before; \<open>accepted_keys\<close>
  lists the compositions and masses accepted among the pairs visited.
\<close>

definition accept_item ::
  "string list \<Rightarrow> char set \<Rightarrow> int \<Rightarrow> string list \<Rightarrow> 'm filter_item \<Rightarrow> (string \<times> 'm) list
     \<Rightarrow> (string \<times> 'm) list" where
  "accept_item nt_groups can_xl max_length target_sequences x accepted =
     (if passes_rules nt_groups can_xl max_length target_sequences (snd (snd x))
         \<and> item_key x \<notin> set accepted
      then accepted @ [item_key x] else accepted)"

definition accepted_keys ::
  "string list \<Rightarrow> char set \<Rightarrow> int \<Rightarrow> string list \<Rightarrow> 'm filter_item list \<Rightarrow> (string \<times> 'm) list" where
  "accepted_keys nt_groups can_xl max_length target_sequences xs =
     fold (accept_item nt_groups can_xl max_length target_sequences) xs []"

text \<open>Containment in a target sequence, which depends on the sorted composition alone.\<close>

definition contained :: "string list \<Rightarrow> string \<Rightarrow> bool" where
  "contained target_sequences composition \<longleftrightarrow>
     (\<exists>t\<in>set target_sequences. \<not> notInSeq t composition)"

text \<open>The pair that the filter puts on the list of violations for an item.\<close>

definition item_pair :: "'m filter_item \<Rightarrow> string \<times> string" where
  "item_pair x = (fst x, snd (snd x))"


section \<open>Properties\<close>

subsection \<open>Ordered containers\<close>

lemma map_keys_Nil [simp]: "map_keys [] = {}"
  by (simp add: map_keys_def)

lemma map_keys_dom: "map_keys m = dom (map_of m)"
  by (simp add: map_keys_def dom_map_of_conv_image_fst)

lemma map_of_insort_key_fresh:
  "k \<notin> fst ` set m \<Longrightarrow> map_of (insort_key f (k, v) m) = (map_of m)(k \<mapsto> v)"
  by (induction m) (auto simp: fun_upd_twist)

lemma map_of_map_upd_entry:
  "map_of (map (\<lambda>(k', v'). if k' = k then (k', v) else (k', v')) m) x
     = (if x = k \<and> k \<in> fst ` set m then Some v else map_of m x)"
proof (induction m)
  case Nil
  show ?case by simp
next
  case (Cons e m)
  obtain a b where e: "e = (a, b)" by (cases e)
  show ?case using Cons by (auto simp: e split: if_splits)
qed

lemma map_of_map_set: "map_of (map_set k v m) = (map_of m)(k \<mapsto> v)"
  by (auto simp: map_set_def map_keys_def map_of_insort_key_fresh map_of_map_upd_entry fun_eq_iff)

lemma map_keys_map_set: "map_keys (map_set k v m) = insert k (map_keys m)"
  by (simp add: map_keys_dom map_of_map_set)

lemma map_fst_map_upd_entry:
  "map (fst \<circ> (\<lambda>(k', v'). if k' = k then (k', v) else (k', v'))) m = map fst m"
  by (induction m) auto

lemma distinct_map_set:
  "distinct (map fst m) \<Longrightarrow> distinct (map fst (map_set k v m))"
  by (auto simp: map_set_def map_keys_def map_fst_map_upd_entry distinct_insort_key)

lemma map_get_map_set: "map_get (map_set k v m) k' = (if k' = k then v else map_get m k')"
  by (simp add: map_get_def map_of_map_set)

lemma map_of_map_touch:
  "map_of (map_touch k m) = (if k \<in> map_keys m then map_of m else (map_of m)(k \<mapsto> []))"
  by (simp add: map_touch_def map_keys_def map_of_insort_key_fresh)

lemma map_keys_map_touch: "map_keys (map_touch k m) = insert k (map_keys m)"
  by (auto simp: map_keys_dom map_of_map_touch)

lemma map_get_map_touch: "map_get (map_touch k m) k' = map_get m k'"
  by (auto simp: map_get_def map_of_map_touch map_keys_dom split: option.splits)

lemma distinct_map_touch:
  "distinct (map fst m) \<Longrightarrow> distinct (map fst (map_touch k m))"
  by (auto simp: map_touch_def map_keys_def distinct_insort_key)

lemma set_set_insert: "set (set_insert x s) = insert x (set s)"
  by (simp add: set_insert_def set_insort_insert)

lemma set_set_erase: "set (set_erase x s) = set s - {x}"
  by (auto simp: set_erase_def)

lemma map_keys_map_insert: "map_keys (map_insert k x m) = insert k (map_keys m)"
  by (simp add: map_insert_def map_keys_map_set)

lemma map_get_map_insert:
  "set (map_get (map_insert k x m) k') =
     (if k' = k then insert x (set (map_get m k)) else set (map_get m k'))"
  by (simp add: map_insert_def map_get_map_set set_set_insert)

lemma distinct_map_insert:
  "distinct (map fst m) \<Longrightarrow> distinct (map fst (map_insert k x m))"
  by (simp add: map_insert_def distinct_map_set)

lemma map_keys_map_set_erase: "map_keys (map_set_erase k x m) = insert k (map_keys m)"
  by (simp add: map_set_erase_def map_keys_map_set)

lemma map_get_map_set_erase:
  "set (map_get (map_set_erase k x m) k') =
     (if k' = k then set (map_get m k) - {x} else set (map_get m k'))"
  by (simp add: map_set_erase_def map_get_map_set set_set_erase)

lemma distinct_map_set_erase:
  "distinct (map fst m) \<Longrightarrow> distinct (map fst (map_set_erase k x m))"
  by (simp add: map_set_erase_def distinct_map_set)

lemma map_get_entry:
  "distinct (map fst m) \<Longrightarrow> (k, v) \<in> set m \<Longrightarrow> map_get m k = v"
  by (simp add: map_get_def)

lemma map_get_absent: "k \<notin> map_keys m \<Longrightarrow> map_get m k = []"
  by (auto simp: map_get_def map_keys_dom split: option.splits)

lemma map_get_in_entries: "k \<in> map_keys m \<Longrightarrow> (k, map_get m k) \<in> set m"
  by (auto simp: map_get_def map_keys_dom dest: map_of_SomeD split: option.splits)

subsection \<open>Containment under anagram equality\<close>

lemma sort_eq_iff_mset: "sort (a::'a::linorder list) = sort b \<longleftrightarrow> mset a = mset b"
proof
  assume "sort a = sort b"
  then have "mset (sort a) = mset (sort b)" by simp
  then show "mset a = mset b" by simp
next
  assume "mset a = mset b"
  then show "sort a = sort b"
    by (metis mset_sort properties_for_sort sorted_sort)
qed

lemma notInSeq_loop_iff:
  "0 \<le> l \<Longrightarrow>
   notInSeq_loop r q l = False \<longleftrightarrow>
     (\<exists>k. nat l \<le> k \<and> k + length q \<le> length r \<and> mset (substr r k (length q)) = mset q)"
proof (induction r q l rule: notInSeq_loop.induct)
  case (1 r q l)
  show ?case
  proof (cases "l \<le> int (length r) - int (length q)")
    case False
    then have "notInSeq_loop r q l = True" by simp
    moreover from False "1.prems" have "\<not> (\<exists>k. nat l \<le> k \<and> k + length q \<le> length r)"
      by auto
    ultimately show ?thesis by blast
  next
    case inrange: True
    show ?thesis
    proof (cases "sort (substr r (nat l) (length q)) = sort q")
      case True
      with inrange have "notInSeq_loop r q l = False" by simp
      moreover from True have "mset (substr r (nat l) (length q)) = mset q"
        by (simp add: sort_eq_iff_mset)
      moreover from inrange "1.prems" have "nat l + length q \<le> length r" by auto
      ultimately show ?thesis by blast
    next
      case False
      then have here: "mset (substr r (nat l) (length q)) \<noteq> mset q"
        by (simp add: sort_eq_iff_mset)
      from inrange False have step: "notInSeq_loop r q l = notInSeq_loop r q (l + 1)" by simp
      have IH: "notInSeq_loop r q (l + 1) = False \<longleftrightarrow>
        (\<exists>k. nat (l + 1) \<le> k \<and> k + length q \<le> length r \<and> mset (substr r k (length q)) = mset q)"
        using "1.IH" [OF inrange False] "1.prems" by simp
      have nat_step: "nat (l + 1) = Suc (nat l)" using "1.prems" by simp
      show ?thesis
        unfolding step IH nat_step
        using here by (metis Suc_leD Suc_leI le_neq_implies_less)
    qed
  qed
qed

lemma notInSeq_iff:
  "notInSeq res_seq query = False \<longleftrightarrow>
     query = [] \<or>
     (\<exists>l. l + length query \<le> length res_seq \<and>
          mset (substr res_seq l (length query)) = mset query)"
  using notInSeq_loop_iff [of 0 res_seq query] by (auto simp: notInSeq_def)

text \<open>
  C5. \<open>notInSeq res_seq query\<close> is false exactly when the query is empty or some window
  of \<open>res_seq\<close>, as long as the query, has the characters of the query in some order
  (the same multiset); so it is true for a query that is not empty and longer than
  \<open>res_seq\<close>, and the order of the characters in the window never matters.
\<close>

theorem notInSeq_anagram_window:
  "(notInSeq res_seq query = False \<longleftrightarrow>
      query = [] \<or>
      (\<exists>l. l + length query \<le> length res_seq \<and>
           mset (substr res_seq l (length query)) = mset query))
   \<and> (query \<noteq> [] \<and> length res_seq < length query \<longrightarrow> notInSeq res_seq query)"
  using notInSeq_iff [of res_seq query] by auto

theorem notInSeq_anagram_window_witness:
  "notInSeq ''AUG'' ''UA'' = False \<and> notInSeq ''A'' ''UA''"
proof -
  have w: "(0::nat) + length ''UA'' \<le> length ''AUG''
           \<and> mset (substr ''AUG'' 0 (length ''UA'')) = mset ''UA''"
    by (simp add: substr_def)
  have "notInSeq ''AUG'' ''UA'' = False"
    using notInSeq_anagram_window [of "''AUG''" "''UA''"] w by blast
  moreover have "notInSeq ''A'' ''UA''"
    using notInSeq_anagram_window [of "''A''" "''UA''"] by simp
  ultimately show ?thesis by blast
qed

subsection \<open>The generated restriction sequence\<close>

lemma set_words_of_length:
  "set (words_of_length alphabet k) = {w. length w = k \<and> set w \<subseteq> set alphabet}"
proof (induction k)
  case 0
  show ?case by auto
next
  case (Suc k)
  show ?case
  proof (rule set_eqI)
    fix w
    show "w \<in> set (words_of_length alphabet (Suc k)) \<longleftrightarrow>
          w \<in> {w. length w = Suc k \<and> set w \<subseteq> set alphabet}"
      using Suc by (cases w) auto
  qed
qed

lemma words_of_length_1: "words_of_length alphabet (Suc 0) = map (\<lambda>c. [c]) alphabet"
  by (simp add: concat_map_singleton)

lemma grow_combinations_words:
  "grow_combinations alphabet (words_of_length alphabet k) = words_of_length alphabet (Suc k)"
  by (simp add: grow_combinations_def)

lemma all_combinations_loop_words:
  "Int_min \<le> max_length - 1 \<Longrightarrow> 1 \<le> i \<Longrightarrow>
   all_combinations_loop alphabet max_length i
      (concat (map (words_of_length alphabet) [1..<Suc (nat i)]), words_of_length alphabet (nat i))
   = Inr (concat (map (words_of_length alphabet) [1..<Suc (max (nat i) (nat max_length))]),
      words_of_length alphabet (max (nat i) (nat max_length)))"
proof (induction "nat (max_length - i)" arbitrary: i)
  case 0
  then have "\<not> i \<le> max_length - 1" by simp
  moreover from 0 have "max (nat i) (nat max_length) = nat i" by simp
  moreover have "\<not> max_length - 1 < Int_min" using 0 by simp
  ultimately show ?case
    by (subst all_combinations_loop.simps) (simp del: all_combinations_loop.simps)
next
  case (Suc n)
  then have le: "i \<le> max_length - 1" by simp
  have range: "\<not> max_length - 1 < Int_min" using Suc.prems by simp
  have n: "n = nat (max_length - (i + 1))" using Suc.hyps(2) by simp
  have i1: "1 \<le> i + 1" using Suc.prems by simp
  have nat1: "nat (i + 1) = Suc (nat i)" using Suc.prems by simp
  have mx: "max (Suc (nat i)) (nat max_length) = max (nat i) (nat max_length)"
    using le Suc.prems by simp
  have "all_combinations_loop alphabet max_length i
      (concat (map (words_of_length alphabet) [1..<Suc (nat i)]), words_of_length alphabet (nat i))
    = all_combinations_loop alphabet max_length (i + 1)
      (concat (map (words_of_length alphabet) [1..<Suc (nat (i + 1))]),
       words_of_length alphabet (nat (i + 1)))"
    using le range Suc.prems
    by (subst all_combinations_loop.simps)
       (simp add: grow_combinations_words nat1 Let_def
             del: words_of_length.simps all_combinations_loop.simps)
  also have "\<dots> = Inr (concat (map (words_of_length alphabet) [1..<Suc (max (nat (i + 1)) (nat max_length))]),
      words_of_length alphabet (max (nat (i + 1)) (nat max_length)))"
    using Suc.hyps(1) [OF n Suc.prems(1) i1] .
  finally show ?case by (simp only: nat1 mx)
qed

lemma generated_restriction_words:
  "Int_min \<le> max_length - 1 \<Longrightarrow>
   generated_restriction source_nucleotides max_length =
     Inr (words_up_to source_nucleotides (max 1 (nat max_length)))"
proof -
  assume range: "Int_min \<le> max_length - 1"
  have "all_combinations_loop source_nucleotides max_length 1
          (map (\<lambda>c. [c]) source_nucleotides, map (\<lambda>c. [c]) source_nucleotides)
        = Inr (concat (map (words_of_length source_nucleotides) [1..<Suc (max 1 (nat max_length))]),
           words_of_length source_nucleotides (max 1 (nat max_length)))"
    using all_combinations_loop_words [OF range, of 1 source_nucleotides]
    by (simp add: concat_map_singleton del: all_combinations_loop.simps)
  then show ?thesis
    by (simp add: generated_restriction_def words_up_to_def Let_def del: all_combinations_loop.simps)
qed

lemma generated_restriction_overflow:
  "max_length - 1 < Int_min \<Longrightarrow> generated_restriction source_nucleotides max_length = Inl Overflow"
  by (subst generated_restriction_def, subst all_combinations_loop.simps)
     (simp add: Let_def del: all_combinations_loop.simps)

lemma restriction_or_generated_eq:
  "restriction_or_generated source_nucleotides max_length sequence_restriction =
     (if sequence_restriction \<noteq> [] then Inr sequence_restriction
      else if max_length - 1 < Int_min then Inl Overflow
      else Inr (words_up_to source_nucleotides (max 1 (nat max_length))))"
  using generated_restriction_words [of max_length source_nucleotides]
    generated_restriction_overflow [of max_length source_nucleotides]
  by (simp add: restriction_or_generated_def)

subsection \<open>Reading the configuration\<close>

lemma ebind_simps [simp]:
  "ebind (Inr a) f = f a"
  "ebind (Inl e) f = Inl e"
  by (simp_all add: ebind_def)

lemma ebind_eq_Inr: "ebind x f = Inr r \<longleftrightarrow> (\<exists>a. x = Inr a \<and> f a = Inr r)"
  by (cases x) simp_all

lemma ebind_eq_Inl: "ebind x f = Inl e \<longleftrightarrow> x = Inl e \<or> (\<exists>a. x = Inr a \<and> f a = Inl e)"
  by (cases x) auto






lemma char_at_0: "\<exists>c. char_at s 0 = Inr c"
  by (simp add: char_at_def)

lemma char_at_1_Inl: "char_at m 1 = Inl e \<longleftrightarrow> m = [] \<and> e = OutOfBounds"
  by (cases m) (auto simp: char_at_def)

lemma source_nucleotides_of_total: "\<exists>cs. source_nucleotides_of ms = Inr cs"
proof (induction ms)
  case Nil
  show ?case by simp
next
  case (Cons s ms)
  obtain c where "char_at s 0 = Inr c" using char_at_0 by blast
  with Cons show ?case by auto
qed


lemma vec_at_Inl: "vec_at v i = Inl e \<longleftrightarrow> length v \<le> i \<and> e = OutOfBounds"
  by (auto simp: vec_at_def)








text \<open>The second character of a modification string is a colon.\<close>

lemma parse_subformulae_Inl:
  "parse_subformulae L ems = Inl e \<Longrightarrow> e = ParseError"
proof (induction ems)
  case Nil
  then show ?case by simp
next
  case (Cons x ems)
  then show ?case
    by (auto simp: Let_def ebind_eq_Inl split: if_splits option.splits)
qed

lemma parse_modification_Inr:
  "parse_modification L m = Inr r \<Longrightarrow> 2 \<le> length m \<and> m ! 1 = CHR '':''"
  by (cases m; cases "tl m")
     (auto simp: parse_modification_def ebind_eq_Inr char_at_def split: if_splits)

lemma parse_modification_Missing:
  "parse_modification L m = Inl MissingInformation \<longleftrightarrow>
     m \<noteq> [] \<and> \<not> (2 \<le> length m \<and> m ! 1 = CHR '':'')"
proof (cases "2 \<le> length m \<and> m ! 1 = CHR '':''")
  case True
  then have c: "char_at m (Suc 0) = Inr (CHR '':'')" by (auto simp: char_at_def)
  have "parse_modification L m \<noteq> Inl MissingInformation"
    using parse_subformulae_Inl [of L]
    by (auto simp: parse_modification_def c Let_def ebind_eq_Inl)
  with True show ?thesis by auto
next
  case False
  show ?thesis
  proof (cases m)
    case Nil
    then show ?thesis by (simp add: parse_modification_def char_at_def)
  next
    case (Cons a m')
    with False have "\<exists>c. char_at m (Suc 0) = Inr c \<and> c \<noteq> CHR '':''"
      by (cases m') (auto simp: char_at_def)
    then show ?thesis using False Cons by (auto simp: parse_modification_def)
  qed
qed


lemma parse_modifications_Inr:
  "parse_modifications L ms M = Inr r \<Longrightarrow> \<forall>m\<in>set ms. 2 \<le> length m \<and> m ! 1 = CHR '':''"
proof (induction ms arbitrary: M)
  case Nil
  show ?case by simp
next
  case (Cons m ms)
  from Cons.prems obtain x M' where "parse_modification L m = Inr x"
    "parse_modifications L ms M' = Inr r"
    by (auto simp: ebind_eq_Inr)
  with Cons.IH parse_modification_Inr [of L m] show ?case by (cases x) auto
qed


lemma parse_modifications_Missing:
  "parse_modifications L ms M = Inl MissingInformation
     \<Longrightarrow> \<exists>m\<in>set ms. \<not> (2 \<le> length m \<and> m ! 1 = CHR '':'')"
proof (induction ms arbitrary: M)
  case Nil
  then show ?case by simp
next
  case (Cons m ms)
  then show ?case
    by (auto simp: ebind_eq_Inl parse_modification_Missing)
qed

lemma parse_modifications_first_error:
  "\<forall>x\<in>set ms1. \<exists>r. parse_modification L x = Inr r \<Longrightarrow>
   parse_modification L m = Inl e \<Longrightarrow>
   parse_modifications L (ms1 @ m # ms2) M = Inl e"
proof (induction ms1 arbitrary: M)
  case Nil
  then show ?case by simp
next
  case (Cons a ms1)
  then obtain r where "parse_modification L a = Inr r" by auto
  with Cons show ?case by (cases r) auto
qed

lemma parse_modifications_bad_Inl:
  "\<exists>m\<in>set ms. \<not> (2 \<le> length m \<and> m ! 1 = CHR '':'') \<Longrightarrow> \<exists>e. parse_modifications L ms M = Inl e"
  using parse_modifications_Inr [of L ms M] by (cases "parse_modifications L ms M") auto

lemma parse_modifications_good_not_Missing:
  "\<forall>m\<in>set ms. 2 \<le> length m \<and> m ! 1 = CHR '':'' \<Longrightarrow>
   parse_modifications L ms M \<noteq> Inl MissingInformation"
  using parse_modifications_Missing [of L ms M] by auto

lemma source_nucleotides_of_eq: "source_nucleotides_of ms = Inr (map first_char ms)"
proof (induction ms)
  case Nil
  show ?case by simp
next
  case (Cons s ms)
  have "char_at s 0 = Inr (first_char s)"
    by (cases s) (simp_all add: char_at_def first_char_def)
  with Cons show ?case by simp
qed

lemma read_configuration_eq:
  "read_configuration L tn mp mods sr ml =
     (case parse_targets L tn [] of
        Inl e \<Rightarrow> Inl e
      | Inr t \<Rightarrow>
         (case parse_mappings mp [] of
            Inl e \<Rightarrow> Inl e
          | Inr s \<Rightarrow>
             (case restriction_or_generated (map first_char mp) ml sr of
                Inl e \<Rightarrow> Inl e
              | Inr g \<Rightarrow>
                 (case parse_modifications L mods [] of
                    Inl e \<Rightarrow> Inl e
                  | Inr n \<Rightarrow> Inr (t, fst (erase_trivial s g), snd (erase_trivial s g), n)))))"
  by (simp add: read_configuration_def source_nucleotides_of_eq Let_def split_beta
           split: sum.splits)

lemma chain_loop_overflow:
  "max_length - 1 < Int_min \<Longrightarrow> chain_loop L t2f max_length i st = Some (Inl Overflow)"
  by (subst chain_loop.simps) simp

lemma chain_loop_rounds:
  "0 \<le> i \<Longrightarrow> Int_min \<le> max_length - 1 \<Longrightarrow>
   chain_loop L t2f max_length i st
     = map_option Inr (ofold (\<lambda>round. chain_round L t2f) [nat i..<nat (max_length - 1)] st)"
proof (induction L t2f max_length i st rule: chain_loop.induct)
  case (1 L t2f max_length i st)
  have range: "\<not> max_length - 1 < Int_min" using "1.prems" by simp
  show ?case
  proof (cases "i < max_length - 1")
    case False
    then have "[nat i..<nat (max_length - 1)] = []" using "1.prems" by simp
    with False range show ?thesis by (subst chain_loop.simps) simp
  next
    case True
    then have up: "[nat i..<nat (max_length - 1)] = nat i # [nat (i + 1)..<nat (max_length - 1)]"
      using "1.prems" by (simp add: upt_conv_Cons nat_add_distrib)
    show ?thesis
    proof (cases "chain_round L t2f st")
      case None
      with True range show ?thesis by (subst chain_loop.simps) (simp add: up)
    next
      case (Some st')
      have "chain_loop L t2f max_length (i + 1) st'
          = map_option Inr (ofold (\<lambda>round. chain_round L t2f) [nat (i + 1)..<nat (max_length - 1)] st')"
        using "1.IH" [OF range True Some] "1.prems" by simp
      with True Some range show ?thesis by (subst chain_loop.simps) (simp add: up)
    qed
  qed
qed

lemma chain_loop_Inl:
  "chain_loop L t2f max_length 0 st = Some (Inl e) \<longleftrightarrow> max_length - 1 < Int_min \<and> e = Overflow"
proof (cases "max_length - 1 < Int_min")
  case True
  then show ?thesis by (auto simp: chain_loop_overflow)
next
  case False
  then have "chain_loop L t2f max_length 0 st
      = map_option Inr (ofold (\<lambda>round. chain_round L t2f) [0..<nat (max_length - 1)] st)"
    using chain_loop_rounds [of 0 max_length L t2f st] by simp
  with False show ?thesis by auto
qed

lemma generate_combinations_Inl:
  "generate_combinations L t2f nm max_length = Some (Inl e)
     \<longleftrightarrow> max_length - 1 < Int_min \<and> e = Overflow"
proof -
  obtain actual mc where m: "modified_nucleotides L t2f nm = (actual, mc)"
    by (cases "modified_nucleotides L t2f nm")
  show ?thesis
    using chain_loop_Inl [of L t2f max_length "(actual, actual, mc)" e]
    by (auto simp: generate_combinations_def m split: option.splits sum.splits)
qed

lemma init_Inl_read:
  "read_configuration L tn mp mods sr ml = Inl e \<Longrightarrow>
   initModificationMassesNA L tn groups xl mp mods sr cys ml = Some (Inl e)"
  by (simp add: initModificationMassesNA_def)

lemma init_Inl:
  "initModificationMassesNA L tn groups xl mp mods sr cys ml = Some (Inl e)
     \<longleftrightarrow> read_configuration L tn mp mods sr ml = Inl e
         \<or> ((\<exists>c. read_configuration L tn mp mods sr ml = Inr c) \<and> ml - 1 < Int_min \<and> e = Overflow)"
proof (cases "read_configuration L tn mp mods sr ml")
  case (Inl x)
  then show ?thesis by (simp add: initModificationMassesNA_def)
next
  case (Inr c)
  obtain t s g n where c: "c = (t, s, g, n)" by (cases c)
  show ?thesis
    using generate_combinations_Inl [of L t n ml e]
    by (auto simp: initModificationMassesNA_def Inr c Let_def split: option.splits sum.splits)
qed

lemma init_Inr:
  "initModificationMassesNA L tn groups xl mp mods sr cys ml = Some (Inr r)
     \<Longrightarrow> \<exists>c. read_configuration L tn mp mods sr ml = Inr c"
  by (auto simp: initModificationMassesNA_def Let_def split: sum.splits option.splits prod.splits)

lemma read_configuration_Inl:
  "read_configuration L tn mp mods sr ml = Inl e \<longleftrightarrow>
     parse_targets L tn [] = Inl e
     \<or> (\<exists>t. parse_targets L tn [] = Inr t \<and> parse_mappings mp [] = Inl e)
     \<or> (\<exists>t s. parse_targets L tn [] = Inr t \<and> parse_mappings mp [] = Inr s
              \<and> sr = [] \<and> ml - 1 < Int_min \<and> e = Overflow)
     \<or> (\<exists>t s. parse_targets L tn [] = Inr t \<and> parse_mappings mp [] = Inr s
              \<and> (sr \<noteq> [] \<or> Int_min \<le> ml - 1)
              \<and> parse_modifications L mods [] = Inl e)"
  by (auto simp: read_configuration_eq restriction_or_generated_eq split: sum.splits)


lemma parse_targets_Inl:
  "parse_targets L tn M = Inl e \<Longrightarrow> e = OutOfBounds \<or> e = ParseError"
proof (induction tn arbitrary: M)
  case Nil
  then show ?case by simp
next
  case (Cons s tn)
  then show ?case
    by (auto simp: Let_def ebind_eq_Inl vec_at_Inl split: option.splits)
qed

lemma parse_mappings_Inl:
  "parse_mappings mp M = Inl e \<Longrightarrow> e = OutOfBounds"
proof (induction mp arbitrary: M)
  case Nil
  then show ?case by simp
next
  case (Cons s mp)
  then show ?case
    by (auto simp: Let_def ebind_eq_Inl vec_at_Inl char_at_def split: if_splits)
qed

lemma parse_modifications_Inl_split:
  "parse_modifications L ms M = Inl e \<Longrightarrow>
     \<exists>ms1 m ms2. ms = ms1 @ m # ms2 \<and> (\<forall>x\<in>set ms1. \<exists>r. parse_modification L x = Inr r)
                   \<and> parse_modification L m = Inl e"
proof (induction ms arbitrary: M)
  case Nil
  then show ?case by simp
next
  case (Cons a ms)
  show ?case
  proof (cases "parse_modification L a")
    case (Inl e')
    with Cons.prems have "e' = e" by simp
    with Inl have "a # ms = [] @ a # ms \<and> (\<forall>x\<in>set []. \<exists>r. parse_modification L x = Inr r)
        \<and> parse_modification L a = Inl e" by simp
    then show ?thesis by blast
  next
    case (Inr r)
    obtain N nm where r: "r = (N, nm)" by (cases r)
    from Cons.prems Inr r have "parse_modifications L ms (map_push_back N nm M) = Inl e" by simp
    from Cons.IH [OF this] obtain ms1 m ms2 where
      "ms = ms1 @ m # ms2" "\<forall>x\<in>set ms1. \<exists>r. parse_modification L x = Inr r"
      "parse_modification L m = Inl e" by blast
    with Inr have "a # ms = (a # ms1) @ m # ms2
        \<and> (\<forall>x\<in>set (a # ms1). \<exists>r. parse_modification L x = Inr r)
        \<and> parse_modification L m = Inl e" by simp
    then show ?thesis by blast
  qed
qed

text \<open>
  C7 as amended. A modification string whose second character is not a colon is fatal:
  the function ends with an error and returns no result. The error is MissingInformation
  exactly when the run gets to such a string: the target nucleotides and the mappings
  have been read, the restriction sequence is given or \<open>max_length - 1\<close> is in range, the
  modification strings before it have been parsed, and the string is not empty.
  Otherwise the earlier failure ends the call. When every modification string has a
  colon as its second character, MissingInformation is not raised.
\<close>

theorem malformed_modification_is_fatal:
  "((\<exists>m\<in>set modifications. \<not> (2 \<le> length m \<and> m ! 1 = CHR '':''))
      \<longrightarrow> (\<exists>e. initModificationMassesNA L target_nucleotides nt_groups can_xl mappings
                  modifications sequence_restriction cysteine_adduct max_length = Some (Inl e)))
   \<and> (initModificationMassesNA L target_nucleotides nt_groups can_xl mappings
            modifications sequence_restriction cysteine_adduct max_length
          = Some (Inl MissingInformation)
        \<longleftrightarrow> (\<exists>t. parse_targets L target_nucleotides [] = Inr t)
            \<and> (\<exists>s. parse_mappings mappings [] = Inr s)
            \<and> (sequence_restriction \<noteq> [] \<or> Int_min \<le> max_length - 1)
            \<and> (\<exists>ms1 m ms2. modifications = ms1 @ m # ms2
                  \<and> (\<forall>x\<in>set ms1. \<exists>r. parse_modification L x = Inr r)
                  \<and> m \<noteq> [] \<and> \<not> (2 \<le> length m \<and> m ! 1 = CHR '':'')))
   \<and> ((\<forall>m\<in>set modifications. 2 \<le> length m \<and> m ! 1 = CHR '':'')
      \<longrightarrow> initModificationMassesNA L target_nucleotides nt_groups can_xl mappings
            modifications sequence_restriction cysteine_adduct max_length
          \<noteq> Some (Inl MissingInformation))"
proof (intro conjI)
  show "(\<exists>m\<in>set modifications. \<not> (2 \<le> length m \<and> m ! 1 = CHR '':''))
      \<longrightarrow> (\<exists>e. initModificationMassesNA L target_nucleotides nt_groups can_xl mappings
                  modifications sequence_restriction cysteine_adduct max_length = Some (Inl e))"
  proof (rule impI)
    assume bad: "\<exists>m\<in>set modifications. \<not> (2 \<le> length m \<and> m ! 1 = CHR '':'')"
    obtain e where "parse_modifications L modifications [] = Inl e"
      using parse_modifications_bad_Inl [OF bad] by blast
    then have "\<exists>e. read_configuration L target_nucleotides mappings modifications
                     sequence_restriction max_length = Inl e"
      by (auto simp: read_configuration_eq split: sum.splits)
    then show "\<exists>e. initModificationMassesNA L target_nucleotides nt_groups can_xl mappings
                    modifications sequence_restriction cysteine_adduct max_length = Some (Inl e)"
      using init_Inl_read by blast
  qed
next
  show "initModificationMassesNA L target_nucleotides nt_groups can_xl mappings
            modifications sequence_restriction cysteine_adduct max_length
          = Some (Inl MissingInformation)
        \<longleftrightarrow> (\<exists>t. parse_targets L target_nucleotides [] = Inr t)
            \<and> (\<exists>s. parse_mappings mappings [] = Inr s)
            \<and> (sequence_restriction \<noteq> [] \<or> Int_min \<le> max_length - 1)
            \<and> (\<exists>ms1 m ms2. modifications = ms1 @ m # ms2
                  \<and> (\<forall>x\<in>set ms1. \<exists>r. parse_modification L x = Inr r)
                  \<and> m \<noteq> [] \<and> \<not> (2 \<le> length m \<and> m ! 1 = CHR '':''))"
    (is "?missing \<longleftrightarrow> ?reached")
  proof (rule iffI)
    assume ?missing
    then have "read_configuration L target_nucleotides mappings modifications
                 sequence_restriction max_length = Inl MissingInformation"
      by (simp add: init_Inl)
    then obtain t s where ts: "parse_targets L target_nucleotides [] = Inr t"
        "parse_mappings mappings [] = Inr s"
      and range: "sequence_restriction \<noteq> [] \<or> Int_min \<le> max_length - 1"
      and mods: "parse_modifications L modifications [] = Inl MissingInformation"
      using parse_targets_Inl [of L target_nucleotides "[]" MissingInformation]
        parse_mappings_Inl [of mappings "[]" MissingInformation]
      by (auto simp: read_configuration_Inl)
    from parse_modifications_Inl_split [OF mods] obtain ms1 m ms2 where
      "modifications = ms1 @ m # ms2" "\<forall>x\<in>set ms1. \<exists>r. parse_modification L x = Inr r"
      "parse_modification L m = Inl MissingInformation" by blast
    then have "\<exists>ms1 m ms2. modifications = ms1 @ m # ms2
                    \<and> (\<forall>x\<in>set ms1. \<exists>r. parse_modification L x = Inr r)
                    \<and> m \<noteq> [] \<and> \<not> (2 \<le> length m \<and> m ! 1 = CHR '':'')"
      unfolding parse_modification_Missing by blast
    with ts range show ?reached by blast
  next
    assume ?reached
    then obtain t s ms1 m ms2 where ts: "parse_targets L target_nucleotides [] = Inr t"
        "parse_mappings mappings [] = Inr s"
      and range: "sequence_restriction \<noteq> [] \<or> Int_min \<le> max_length - 1"
      and l: "modifications = ms1 @ m # ms2"
      and before: "\<forall>x\<in>set ms1. \<exists>r. parse_modification L x = Inr r"
      and m: "m \<noteq> []" "\<not> (2 \<le> length m \<and> m ! 1 = CHR '':'')"
      by blast
    from m have "parse_modification L m = Inl MissingInformation"
      by (simp add: parse_modification_Missing)
    with before have "parse_modifications L modifications [] = Inl MissingInformation"
      unfolding l by (rule parse_modifications_first_error)
    with ts range have "read_configuration L target_nucleotides mappings modifications
                     sequence_restriction max_length = Inl MissingInformation"
      unfolding read_configuration_Inl by blast
    then show ?missing by (rule init_Inl_read)
  qed
next
  show "(\<forall>m\<in>set modifications. 2 \<le> length m \<and> m ! 1 = CHR '':'')
      \<longrightarrow> initModificationMassesNA L target_nucleotides nt_groups can_xl mappings
            modifications sequence_restriction cysteine_adduct max_length
          \<noteq> Some (Inl MissingInformation)"
  proof (rule impI)
    assume good: "\<forall>m\<in>set modifications. 2 \<le> length m \<and> m ! 1 = CHR '':''"
    have "read_configuration L target_nucleotides mappings modifications
            sequence_restriction max_length \<noteq> Inl MissingInformation"
      using parse_targets_Inl [of L target_nucleotides "[]" MissingInformation]
        parse_mappings_Inl [of mappings "[]" MissingInformation]
        parse_modifications_good_not_Missing [OF good, of L "[]"]
      by (auto simp: read_configuration_Inl)
    then show "initModificationMassesNA L target_nucleotides nt_groups can_xl mappings
              modifications sequence_restriction cysteine_adduct max_length
            \<noteq> Some (Inl MissingInformation)"
      by (simp add: init_Inl)
  qed
qed

theorem malformed_modification_is_fatal_witness:
  "initModificationMassesNA atoms_library [''U=C9H13N2O9P''] [] {CHR ''U''} []
     [''U:'', ''Ux''] ''U'' False 1 = Some (Inl MissingInformation)
   \<and> initModificationMassesNA atoms_library [''U=C9H13N2O9P''] [] {CHR ''U''} []
     [''U:'', ''U:-H2O''] ''U'' False 1 \<noteq> Some (Inl MissingInformation)"
proof -
  have t: "\<exists>t. parse_targets atoms_library [''U=C9H13N2O9P''] [] = Inr t"
  proof -
    have "parse_targets atoms_library [''U=C9H13N2O9P''] []
             = Inr [(''U'', [(''C'', 9), (''H'', 13), (''N'', 2), (''O'', 9), (''P'', 1)])]"
      by code_simp
    then show ?thesis by blast
  qed
  have s: "\<exists>s. parse_mappings [] [] = Inr s" by simp
  have r: "''U'' \<noteq> [] \<or> Int_min \<le> 1 - 1" by simp
  have p: "\<forall>x\<in>set [''U:'']. \<exists>r. parse_modification atoms_library x = Inr r"
  proof -
    have "parse_modification atoms_library ''U:'' = Inr (''U'', [])" by code_simp
    then show ?thesis by simp
  qed
  have bad: "''Ux'' \<noteq> [] \<and> \<not> (2 \<le> length ''Ux'' \<and> ''Ux'' ! 1 = CHR '':'')" by simp
  have good: "\<forall>m\<in>set [''U:'', ''U:-H2O'']. 2 \<le> length m \<and> m ! 1 = CHR '':''" by simp
  have l: "[''U:'', ''Ux''] = [''U:''] @ ''Ux'' # []" by simp
  from l p bad have e: "\<exists>ms1 m ms2. [''U:'', ''Ux''] = ms1 @ m # ms2
      \<and> (\<forall>x\<in>set ms1. \<exists>r. parse_modification atoms_library x = Inr r)
      \<and> m \<noteq> [] \<and> \<not> (2 \<le> length m \<and> m ! 1 = CHR '':'')"
    by blast
  show ?thesis
    using malformed_modification_is_fatal
      [of "[''U:'', ''Ux'']" atoms_library "[''U=C9H13N2O9P'']" "[]" "{CHR ''U''}" "[]"
          "''U''" False 1]
      malformed_modification_is_fatal
      [of "[''U:'', ''U:-H2O'']" atoms_library "[''U=C9H13N2O9P'']" "[]" "{CHR ''U''}" "[]"
          "''U''" False 1]
      t s r e good
    by blast
qed

theorem malformed_modification_other_error_counterexample:
  "initModificationMassesNA atoms_library [''U=C9H13N2O9P''] [] {CHR ''U''} []
     [''U:+x'', ''Ux''] ''U'' False 1 = Some (Inl ParseError)
   \<and> initModificationMassesNA atoms_library [''U=C9H13N2O9P''] [] {CHR ''U''} []
     [[]] ''U'' False 1 = Some (Inl OutOfBounds)"
proof -
  have "initModificationMassesNA atoms_library [''U=C9H13N2O9P''] [] {CHR ''U''} []
     [''U:+x'', ''Ux''] ''U'' False 1 = Some (Inl ParseError)"
    by code_simp
  moreover have "initModificationMassesNA atoms_library [''U=C9H13N2O9P''] [] {CHR ''U''} []
     [[]] ''U'' False 1 = Some (Inl OutOfBounds)"
    by code_simp
  ultimately show ?thesis by blast
qed





subsection \<open>Trivial substitution rules\<close>

lemma signed_char_inj: "signed_char a = signed_char b \<longleftrightarrow> a = b"
proof
  assume eq: "signed_char a = signed_char b"
  have r: "(of_char c :: int) < 256" "0 \<le> (of_char c :: int)" for c :: char
  proof -
    have m: "(of_char c :: int) mod 256 = of_char c" by (rule of_char_mod_256)
    have "(of_char c :: int) mod 256 < 256" by (rule pos_mod_bound) simp
    then show "(of_char c :: int) < 256" unfolding m .
    have "0 \<le> (of_char c :: int) mod 256" by (rule pos_mod_sign) simp
    then show "0 \<le> (of_char c :: int)" unfolding m .
  qed
  from eq r [of a] r [of b] have "(of_char a :: int) = of_char b"
    by (auto simp: signed_char_def split: if_splits)
  then show "a = b" by simp
qed simp

lemma erase_trivial_insort_trivial:
  "erase_trivial (insort_key (\<lambda>e. signed_char (fst e)) (c, [c]) M) sr = erase_trivial M sr"
proof (induction M arbitrary: sr)
  case Nil
  show ?case by simp
next
  case (Cons e M)
  obtain a ts where e: "e = (a, ts)" by (cases e)
  show ?case
  proof (cases "signed_char c \<le> signed_char a")
    case True
    then show ?thesis by (simp add: e)
  next
    case False
    then show ?thesis using Cons
      by (cases ts; cases "tl ts") (auto simp: e split: prod.splits)
  qed
qed

lemma map_insort_key_fst:
  "(\<And>e. fst (g e) = fst e) \<Longrightarrow>
   map g (insort_key (\<lambda>e. signed_char (fst e)) x M)
     = insort_key (\<lambda>e. signed_char (fst e)) (g x) (map g M)"
  by (induction M) auto

lemma map_get_insort_other:
  "a \<noteq> c \<Longrightarrow> c \<notin> map_keys M \<Longrightarrow>
   map_get (insort_key (\<lambda>e. signed_char (fst e)) (c, v) M) a = map_get M a"
  by (simp add: map_get_def map_keys_def map_of_insort_key_fresh)

lemma map_keys_insort: "map_keys (insort_key f e M) = insert (fst e) (map_keys M)"
  by (simp add: map_keys_def set_insort_key)

lemma char_map_set_insort_other:
  assumes "a \<noteq> c"
  shows "char_map_set a v (insort_key (\<lambda>e. signed_char (fst e)) (c, w) M)
       = insort_key (\<lambda>e. signed_char (fst e)) (c, w) (char_map_set a v M)"
proof (cases "a \<in> map_keys M")
  case True
  have "map (\<lambda>(k', v'). if k' = a then (k', v) else (k', v'))
          (insort_key (\<lambda>e. signed_char (fst e)) (c, w) M)
      = insort_key (\<lambda>e. signed_char (fst e)) ((\<lambda>(k', v'). if k' = a then (k', v) else (k', v')) (c, w))
          (map (\<lambda>(k', v'). if k' = a then (k', v) else (k', v')) M)"
    by (rule map_insort_key_fst) (auto split: prod.splits)
  then show ?thesis using True assms by (simp add: char_map_set_def map_keys_insort)
next
  case False
  have "insort_key (\<lambda>e. signed_char (fst e)) (a, v) (insort_key (\<lambda>e. signed_char (fst e)) (c, w) M)
      = insort_key (\<lambda>e. signed_char (fst e)) (c, w) (insort_key (\<lambda>e. signed_char (fst e)) (a, v) M)"
    using assms by (intro insort_key_left_comm) (simp add: signed_char_inj)
  then show ?thesis using False assms by (simp add: char_map_set_def map_keys_insort)
qed

lemma char_map_push_back_insort_other:
  "a \<noteq> c \<Longrightarrow> c \<notin> map_keys M \<Longrightarrow>
   char_map_push_back a b (insort_key (\<lambda>e. signed_char (fst e)) (c, w) M)
     = insort_key (\<lambda>e. signed_char (fst e)) (c, w) (char_map_push_back a b M)"
  by (simp add: char_map_push_back_def map_get_insort_other char_map_set_insort_other)

lemma map_of_char_map_set: "map_of (char_map_set k v m) = (map_of m)(k \<mapsto> v)"
  by (auto simp: char_map_set_def map_keys_def map_of_insort_key_fresh map_of_map_upd_entry fun_eq_iff)

lemma map_keys_char_map_set: "map_keys (char_map_set k v m) = insert k (map_keys m)"
  by (simp add: map_keys_dom map_of_char_map_set)

lemma map_keys_char_map_push_back: "map_keys (char_map_push_back a b M) = insert a (map_keys M)"
  by (simp add: char_map_push_back_def map_keys_char_map_set)

lemma char_map_push_back_fresh:
  "c \<notin> map_keys M \<Longrightarrow>
   char_map_push_back c b M = insort_key (\<lambda>e. signed_char (fst e)) (c, [b]) M"
  by (simp add: char_map_push_back_def char_map_set_def map_get_absent)

lemma parse_mappings_step:
  "parse_mappings (s # ss) M =
     (if 2 \<le> length (split s ''->'')
      then parse_mappings ss (char_map_push_back (rule_source s) (first_char (split s ''->'' ! 1)) M)
      else Inl OutOfBounds)"
proof (cases "split s ''->''")
  case Nil
  then show ?thesis by (simp add: vec_at_def)
next
  case (Cons f0 fs)
  have c0: "\<And>x. char_at x 0 = Inr (first_char x)"
    by (simp add: char_at_def first_char_def split: list.splits)
  show ?thesis
  proof (cases fs)
    case Nil
    with Cons show ?thesis by (simp add: vec_at_def c0)
  next
    case (Cons f1 fs')
    with \<open>split s ''->'' = f0 # fs\<close> show ?thesis
      by (simp add: vec_at_def c0 rule_source_def)
  qed
qed

lemma parse_mappings_append:
  "parse_mappings (xs @ ys) M = ebind (parse_mappings xs M) (parse_mappings ys)"
proof (induction xs arbitrary: M)
  case Nil
  show ?case by simp
next
  case (Cons s xs)
  show ?case unfolding append_Cons parse_mappings_step using Cons by simp
qed

lemma parse_mappings_keys:
  "parse_mappings xs M = Inr N \<Longrightarrow> map_keys N = map_keys M \<union> rule_source ` set xs"
proof (induction xs arbitrary: M)
  case Nil
  then show ?case by simp
next
  case (Cons s xs)
  from Cons.prems have "parse_mappings xs
      (char_map_push_back (rule_source s) (first_char (split s ''->'' ! 1)) M) = Inr N"
    unfolding parse_mappings_step by (simp split: if_splits)
  from Cons.IH [OF this] show ?case by (auto simp: map_keys_char_map_push_back)
qed

lemma parse_mappings_with_trivial:
  "c \<notin> map_keys M \<Longrightarrow> \<forall>x\<in>set ys. rule_source x \<noteq> c \<Longrightarrow>
   parse_mappings ys (insort_key (\<lambda>e. signed_char (fst e)) (c, [c]) M)
     = (case parse_mappings ys M of Inl e \<Rightarrow> Inl e
        | Inr N \<Rightarrow> Inr (insort_key (\<lambda>e. signed_char (fst e)) (c, [c]) N))"
proof (induction ys arbitrary: M)
  case Nil
  show ?case by simp
next
  case (Cons s ys)
  have src: "rule_source s \<noteq> c" using Cons.prems by simp
  show ?case
  proof (cases "2 \<le> length (split s ''->'')")
    case False
    then show ?thesis unfolding parse_mappings_step by simp
  next
    case True
    have k: "c \<notin> map_keys (char_map_push_back (rule_source s) (first_char (split s ''->'' ! 1)) M)"
      using Cons.prems src by (simp add: map_keys_char_map_push_back)
    show ?thesis
      unfolding parse_mappings_step
      using True Cons.IH [OF k] Cons.prems src
      by (simp add: char_map_push_back_insort_other)
  qed
qed

lemma split_trivial_rule: "split (trivial_rule c) ''->'' = [[c], [c]]"
  by (simp add: trivial_rule_def split_def)

lemma parse_mappings_trivial_rule:
  "c \<notin> map_keys M \<Longrightarrow>
   parse_mappings (trivial_rule c # ys) M
     = parse_mappings ys (insort_key (\<lambda>e. signed_char (fst e)) (c, [c]) M)"
  unfolding parse_mappings_step
  by (simp add: split_trivial_rule rule_source_def first_char_def char_map_push_back_fresh)

lemma first_char_trivial_rule: "first_char (trivial_rule c) = c"
  by (simp add: first_char_def trivial_rule_def)

lemma read_configuration_trivial_rule:
  assumes "sequence_restriction \<noteq> []"
    and "\<forall>x\<in>set (ms1 @ ms2). rule_source x \<noteq> c"
  shows "read_configuration L tn (ms1 @ trivial_rule c # ms2) mods sequence_restriction ml
       = read_configuration L tn (ms1 @ ms2) mods sequence_restriction ml"
proof (cases "parse_mappings ms1 []")
  case (Inl e)
  then have "parse_mappings (ms1 @ trivial_rule c # ms2) [] = Inl e"
    "parse_mappings (ms1 @ ms2) [] = Inl e"
    by (simp_all add: parse_mappings_append)
  then show ?thesis
    by (simp add: read_configuration_eq split: sum.splits)
next
  case (Inr M1)
  have k: "c \<notin> map_keys M1"
    using parse_mappings_keys [OF Inr] assms(2) by auto
  have ys: "\<forall>x\<in>set ms2. rule_source x \<noteq> c" using assms(2) by simp
  have with_rule: "parse_mappings (ms1 @ trivial_rule c # ms2) []
      = (case parse_mappings ms2 M1 of Inl e \<Rightarrow> Inl e
         | Inr N \<Rightarrow> Inr (insort_key (\<lambda>e. signed_char (fst e)) (c, [c]) N))"
  proof -
    have "parse_mappings (ms1 @ trivial_rule c # ms2) [] = parse_mappings (trivial_rule c # ms2) M1"
      by (simp add: parse_mappings_append Inr del: parse_mappings.simps)
    also have "\<dots> = parse_mappings ms2 (insort_key (\<lambda>e. signed_char (fst e)) (c, [c]) M1)"
      by (rule parse_mappings_trivial_rule [OF k])
    also have "\<dots> = (case parse_mappings ms2 M1 of Inl e \<Rightarrow> Inl e
         | Inr N \<Rightarrow> Inr (insort_key (\<lambda>e. signed_char (fst e)) (c, [c]) N))"
      by (rule parse_mappings_with_trivial [OF k ys])
    finally show ?thesis .
  qed
  have without: "parse_mappings (ms1 @ ms2) [] = parse_mappings ms2 M1"
    by (simp add: parse_mappings_append Inr)
  show ?thesis
    using assms(1)
    by (simp add: read_configuration_eq with_rule without restriction_or_generated_eq
          erase_trivial_insort_trivial split: sum.splits)
qed

text \<open>
  C8 as amended. When the restriction sequence given is not empty, adding the trivial
  rule \<open>c->c\<close> anywhere in the mappings, \<open>c\<close> being the source of no other rule, changes
  neither what is read from the configuration (the restriction sequence in effect and the
  rules left among it) nor the outcome of the function. With an empty restriction
  sequence the source of the rule joins the alphabet of the generated one.
\<close>

theorem trivial_rule_without_effect:
  "sequence_restriction \<noteq> [] \<Longrightarrow> \<forall>x\<in>set (ms1 @ ms2). rule_source x \<noteq> c \<Longrightarrow>
   read_configuration L target_nucleotides (ms1 @ trivial_rule c # ms2) modifications
       sequence_restriction max_length
     = read_configuration L target_nucleotides (ms1 @ ms2) modifications
         sequence_restriction max_length
   \<and> initModificationMassesNA L target_nucleotides nt_groups can_xl (ms1 @ trivial_rule c # ms2)
         modifications sequence_restriction cysteine_adduct max_length
     = initModificationMassesNA L target_nucleotides nt_groups can_xl (ms1 @ ms2)
         modifications sequence_restriction cysteine_adduct max_length"
  using read_configuration_trivial_rule
    [of sequence_restriction ms1 ms2 c L target_nucleotides modifications max_length]
  by (simp add: initModificationMassesNA_def)

theorem trivial_rule_without_effect_witness:
  "initModificationMassesNA atoms_library [''A=C10H14N5O7P''] [] {CHR ''A''} [''A->A'', ''U->T'']
       [''A:''] ''AU'' False 1
   = initModificationMassesNA atoms_library [''A=C10H14N5O7P''] [] {CHR ''A''} [''U->T'']
       [''A:''] ''AU'' False 1"
proof -
  have r: "\<forall>x\<in>set ([] @ [''U->T'']). rule_source x \<noteq> CHR ''A''"
    by (simp add: rule_source_def split_def first_char_def)
  have n: "''AU'' \<noteq> []" by simp
  show ?thesis
    using trivial_rule_without_effect [OF n r, of atoms_library "[''A=C10H14N5O7P'']" "[''A:'']" 1
        "[]" "{CHR ''A''}" False]
    by (simp add: trivial_rule_def)
qed

theorem trivial_rule_empty_restriction_counterexample:
  "initModificationMassesNA atoms_library [''A=C10H14N5O7P''] [] {CHR ''A''} [''A->A'']
       [''A:''] [] False 1
   \<noteq> initModificationMassesNA atoms_library [''A=C10H14N5O7P''] [] {CHR ''A''} []
       [''A:''] [] False 1"
proof -
  have w: "initModificationMassesNA atoms_library [''A=C10H14N5O7P''] [] {CHR ''A''} [''A->A'']
       [''A:''] [] False 1
     = Some (Inr \<lparr>formula2mass = [(''C10H14N5O7P1'', 347066)],
                    mod_combinations = [(''C10H14N5O7P1'', [''A''])]\<rparr>)"
    by code_simp
  have wo: "initModificationMassesNA atoms_library [''A=C10H14N5O7P''] [] {CHR ''A''} []
       [''A:''] [] False 1
     = Some (Inr \<lparr>formula2mass = [], mod_combinations = []\<rparr>)"
    by code_simp
  show ?thesis unfolding w wo by simp
qed

text \<open>
  A rule \<open>c->c\<close> beside another rule with the source \<open>c\<close> is not trivial: the source
  then has several targets and stays in the map. Beside \<open>A->G\<close> the rule \<open>A->A\<close> keeps
  \<open>A\<close> among the target sequences; given twice, \<open>A->A\<close> has \<open>A\<close> count twice as its own
  target, and no target sequence is valid.
\<close>

lemma rule_beside_same_source_changes_result:
  "initModificationMassesNA atoms_library [''A=C10H14N5O7P''] [] {CHR ''A''} [''A->G'']
       [''A:''] ''A'' False 1
     = Some (Inr \<lparr>formula2mass = [], mod_combinations = []\<rparr>)
   \<and> initModificationMassesNA atoms_library [''A=C10H14N5O7P''] [] {CHR ''A''} [''A->G'', ''A->A'']
       [''A:''] ''A'' False 1
     = Some (Inr \<lparr>formula2mass = [(''C10H14N5O7P1'', 347066)],
                    mod_combinations = [(''C10H14N5O7P1'', [''A''])]\<rparr>)
   \<and> initModificationMassesNA atoms_library [''A=C10H14N5O7P''] [] {CHR ''A''} [''A->A'']
       [''A:''] ''A'' False 1
     = Some (Inr \<lparr>formula2mass = [(''C10H14N5O7P1'', 347066)],
                    mod_combinations = [(''C10H14N5O7P1'', [''A''])]\<rparr>)
   \<and> initModificationMassesNA atoms_library [''A=C10H14N5O7P''] [] {CHR ''A''} [''A->A'', ''A->A'']
       [''A:''] ''A'' False 1
     = Some (Inr \<lparr>formula2mass = [], mod_combinations = []\<rparr>)"
proof -
  have "initModificationMassesNA atoms_library [''A=C10H14N5O7P''] [] {CHR ''A''} [''A->G'']
       [''A:''] ''A'' False 1
     = Some (Inr \<lparr>formula2mass = [], mod_combinations = []\<rparr>)"
    by code_simp
  moreover have "initModificationMassesNA atoms_library [''A=C10H14N5O7P''] [] {CHR ''A''}
       [''A->G'', ''A->A''] [''A:''] ''A'' False 1
     = Some (Inr \<lparr>formula2mass = [(''C10H14N5O7P1'', 347066)],
                    mod_combinations = [(''C10H14N5O7P1'', [''A''])]\<rparr>)"
    by code_simp
  moreover have "initModificationMassesNA atoms_library [''A=C10H14N5O7P''] [] {CHR ''A''} [''A->A'']
       [''A:''] ''A'' False 1
     = Some (Inr \<lparr>formula2mass = [(''C10H14N5O7P1'', 347066)],
                    mod_combinations = [(''C10H14N5O7P1'', [''A''])]\<rparr>)"
    by code_simp
  moreover have "initModificationMassesNA atoms_library [''A=C10H14N5O7P''] [] {CHR ''A''}
       [''A->A'', ''A->A''] [''A:''] ''A'' False 1
     = Some (Inr \<lparr>formula2mass = [], mod_combinations = []\<rparr>)"
    by code_simp
  ultimately show ?thesis by blast
qed

subsection \<open>Chain extension\<close>


lemma least_of_Some:
  "least_of xs = Some m \<Longrightarrow> m \<in> set xs \<and> (\<forall>x\<in>set xs. m \<le> x)"
proof (cases xs)
  case Nil
  assume "least_of xs = Some m"
  with Nil show ?thesis by simp
next
  case (Cons a as)
  assume "least_of xs = Some m"
  with Cons have m: "m = Min (set (a # as))" using Min.set_eq_fold [of a as] by simp
  have "Min (set (a # as)) \<in> set (a # as)" by (rule Min_in) simp_all
  moreover have "\<forall>x\<in>set (a # as). Min (set (a # as)) \<le> x" by simp
  ultimately show ?thesis using m Cons by simp
qed

lemma least_of_None: "least_of xs = None \<longleftrightarrow> xs = []"
  by (cases xs) simp_all

lemma set_begin_least:
  "s \<in> set S \<Longrightarrow> \<exists>s0. set_begin S = Some s0 \<and> s0 \<le> s"
proof -
  assume s: "s \<in> set S"
  then have "least_of S \<noteq> None" by (auto simp: least_of_None)
  then obtain s0 where "least_of S = Some s0" by blast
  with least_of_Some [of S s0] s show ?thesis by (auto simp: set_begin_def)
qed

lemma set_next_least:
  "s \<in> set S \<Longrightarrow> x < s \<Longrightarrow> \<exists>s1. set_next x S = Some s1 \<and> s1 \<le> s"
proof -
  assume s: "s \<in> set S" "x < s"
  then have m: "s \<in> set (filter (\<lambda>y. x < y) S)" by simp
  then have "filter (\<lambda>y. x < y) S \<noteq> []" by (metis empty_iff empty_set)
  then have "least_of (filter (\<lambda>y. x < y) S) \<noteq> None" by (simp add: least_of_None)
  then obtain s1 where "least_of (filter (\<lambda>y. x < y) S) = Some s1" by blast
  with least_of_Some [of "filter (\<lambda>y. x < y) S" s1] m show ?thesis
    by (auto simp: set_next_def)
qed

lemma grows_refl: "grows mc mc"
  by (simp add: grows_def)

lemma grows_trans: "grows a b \<Longrightarrow> grows b c \<Longrightarrow> grows a c"
  unfolding grows_def by (meson subset_trans)

lemma grows_map_insert: "grows mc (map_insert k x mc)"
  by (auto simp: grows_def map_get_map_insert map_keys_map_insert distinct_map_insert)

lemma grows_map_touch: "grows mc (map_touch k mc)"
  by (auto simp: grows_def map_get_map_touch map_keys_map_touch distinct_map_touch)

lemma insert_ambiguities_post:
  assumes run: "insert_ambiguities N kac knew it mc = Some mc'"
  shows "inserted N kac knew it mc mc'"
proof (rule insert_ambiguities.raw_induct [where P = inserted, OF _ run])
  fix f N kac knew it mc mc'
  assume IH: "\<And>N kac knew it mc mc'. f N kac knew it mc = Some mc' \<Longrightarrow> inserted N kac knew it mc mc'"
    and step: "(case it of None \<Rightarrow> Some mc
               | Some s \<Rightarrow> f N kac knew
                   (set_next s (map_get (map_insert knew (N @ s) mc) kac))
                   (map_insert knew (N @ s) mc)) = Some mc'"
  show "inserted N kac knew it mc mc'"
  proof (cases it)
    case None
    with step have "mc' = mc" by simp
    with None show ?thesis by (auto simp: inserted_def grows_refl)
  next
    case (Some s0)
    define mc1 where "mc1 = map_insert knew (N @ s0) mc"
    from step Some have "f N kac knew (set_next s0 (map_get mc1 kac)) mc1 = Some mc'"
      by (simp add: mc1_def)
    from IH [OF this] have
      g2: "grows mc1 mc'" and
      k2: "map_keys mc' \<subseteq> insert knew (map_keys mc1)" and
      c2: "\<And>s1 s. set_next s0 (map_get mc1 kac) = Some s1 \<Longrightarrow> s \<in> set (map_get mc1 kac)
              \<Longrightarrow> s1 \<le> s \<Longrightarrow> N @ s \<in> set (map_get mc' knew)"
      unfolding inserted_def by blast+
    have g1: "grows mc mc1" unfolding mc1_def by (rule grows_map_insert)
    have g: "grows mc mc'" using g1 g2 by (rule grows_trans)
    have keys: "map_keys mc' \<subseteq> insert knew (map_keys mc)"
      using k2 by (auto simp: mc1_def map_keys_map_insert)
    have here: "N @ s0 \<in> set (map_get mc' knew)"
    proof -
      have "N @ s0 \<in> set (map_get mc1 knew)" by (simp add: mc1_def map_get_map_insert)
      with g2 show ?thesis unfolding grows_def by blast
    qed
    have cover: "N @ s \<in> set (map_get mc' knew)"
      if s: "s \<in> set (map_get mc kac)" "s0 \<le> s" for s
    proof (cases "s = s0")
      case True
      with here show ?thesis by simp
    next
      case False
      with s have lt: "s0 < s" by simp
      from s g1 have in1: "s \<in> set (map_get mc1 kac)" unfolding grows_def by blast
      from set_next_least [OF in1 lt] obtain s1
        where "set_next s0 (map_get mc1 kac) = Some s1" "s1 \<le> s" by blast
      then show ?thesis using c2 in1 by blast
    qed
    show ?thesis unfolding inserted_def using g keys cover Some by simp
  qed
qed

lemma extend_combination_post:
  assumes "extend_combination L N F_N ac (new, all, mc) = Some (new', all', mc')"
  shows "new' = new @ [ef_minus L (ef_plus L F_N ac) (ef_water L)]"
    and "all' = all @ [ef_minus L (ef_plus L F_N ac) (ef_water L)]"
    and "grows mc mc'"
    and "map_keys mc' \<subseteq> map_keys mc \<union>
           {ef_toString L ac, ef_toString L (ef_minus L (ef_plus L F_N ac) (ef_water L))}"
    and "\<forall>s\<in>set (map_get mc (ef_toString L ac)).
           N @ s \<in> set (map_get mc' (ef_toString L (ef_minus L (ef_plus L F_N ac) (ef_water L))))"
proof -
  define f where "f = ef_minus L (ef_plus L F_N ac) (ef_water L)"
  define mc1 where "mc1 = map_touch (ef_toString L ac) mc"
  from assms have run: "insert_ambiguities N (ef_toString L ac) (ef_toString L f)
      (set_begin (map_get mc1 (ef_toString L ac))) mc1 = Some mc'"
    and eqs: "new' = new @ [f]" "all' = all @ [f]"
    by (auto simp: extend_combination_def Let_def f_def mc1_def split: option.splits)
  from insert_ambiguities_post [OF run] have
    g2: "grows mc1 mc'" and
    k2: "map_keys mc' \<subseteq> insert (ef_toString L f) (map_keys mc1)" and
    c2: "\<And>s0 s. set_begin (map_get mc1 (ef_toString L ac)) = Some s0
            \<Longrightarrow> s \<in> set (map_get mc1 (ef_toString L ac)) \<Longrightarrow> s0 \<le> s
            \<Longrightarrow> N @ s \<in> set (map_get mc' (ef_toString L f))"
    unfolding inserted_def by blast+
  show "new' = new @ [ef_minus L (ef_plus L F_N ac) (ef_water L)]"
    and "all' = all @ [ef_minus L (ef_plus L F_N ac) (ef_water L)]"
    using eqs by (simp_all add: f_def)
  show "grows mc mc'"
    using grows_map_touch [of mc "ef_toString L ac"] g2 unfolding mc1_def by (rule grows_trans)
  show "map_keys mc' \<subseteq> map_keys mc \<union>
           {ef_toString L ac, ef_toString L (ef_minus L (ef_plus L F_N ac) (ef_water L))}"
    using k2 by (auto simp: mc1_def map_keys_map_touch f_def)
  show "\<forall>s\<in>set (map_get mc (ef_toString L ac)).
           N @ s \<in> set (map_get mc' (ef_toString L (ef_minus L (ef_plus L F_N ac) (ef_water L))))"
  proof
    fix s assume "s \<in> set (map_get mc (ef_toString L ac))"
    then have s: "s \<in> set (map_get mc1 (ef_toString L ac))"
      by (simp add: mc1_def map_get_map_touch)
    from set_begin_least [OF s] obtain s0
      where "set_begin (map_get mc1 (ef_toString L ac)) = Some s0" "s0 \<le> s" by blast
    with c2 s show "N @ s \<in> set (map_get mc'
        (ef_toString L (ef_minus L (ef_plus L F_N ac) (ef_water L))))"
      unfolding f_def by blast
  qed
qed

lemma extend_combination_cond:
  assumes "extend_combination L N F_N ac (new, all, mc) = Some (new', all', mc')"
  shows "new' = new @ [condensation L F_N ac]"
    and "all' = all @ [condensation L F_N ac]"
    and "grows mc mc'"
    and "map_keys mc' \<subseteq> map_keys mc \<union> {ef_toString L ac, ef_toString L (condensation L F_N ac)}"
    and "\<forall>s\<in>set (map_get mc (ef_toString L ac)).
           N @ s \<in> set (map_get mc' (ef_toString L (condensation L F_N ac)))"
  using extend_combination_post [OF assms] unfolding condensation_def by blast+

lemma grows_get: "grows mc mc' \<Longrightarrow> s \<in> set (map_get mc k) \<Longrightarrow> s \<in> set (map_get mc' k)"
  unfolding grows_def by blast

lemma grows_keys: "grows mc mc' \<Longrightarrow> map_keys mc \<subseteq> map_keys mc'"
  unfolding grows_def by blast

lemma grows_distinct: "grows mc mc' \<Longrightarrow> distinct (map fst mc) \<Longrightarrow> distinct (map fst mc')"
  unfolding grows_def by blast

lemma extend_all_post:
  "ofold (extend_combination L N F_N) acs (new, all, mc) = Some (new', all', mc') \<Longrightarrow>
     new' = new @ map (condensation L F_N) acs
   \<and> all' = all @ map (condensation L F_N) acs
   \<and> grows mc mc'
   \<and> map_keys mc' \<subseteq> map_keys mc \<union> ef_toString L ` set acs
                       \<union> ef_toString L ` condensation L F_N ` set acs
   \<and> (\<forall>ac\<in>set acs. \<forall>s\<in>set (map_get mc (ef_toString L ac)).
         N @ s \<in> set (map_get mc' (ef_toString L (condensation L F_N ac))))"
proof (induction acs arbitrary: new all mc)
  case Nil
  then show ?case by (simp add: grows_refl)
next
  case (Cons ac acs)
  from Cons.prems obtain st1 where
    first: "extend_combination L N F_N ac (new, all, mc) = Some st1"
    and rest: "ofold (extend_combination L N F_N) acs st1 = Some (new', all', mc')"
    by (auto split: option.splits)
  obtain new1 all1 mc1 where st1: "st1 = (new1, all1, mc1)" by (cases st1)
  note p1 = extend_combination_cond [OF first [unfolded st1]]
  from Cons.IH [OF rest [unfolded st1]] have
    n: "new' = new1 @ map (condensation L F_N) acs" and
    a: "all' = all1 @ map (condensation L F_N) acs" and
    g: "grows mc1 mc'" and
    k: "map_keys mc' \<subseteq> map_keys mc1 \<union> ef_toString L ` set acs
                       \<union> ef_toString L ` condensation L F_N ` set acs" and
    c: "\<forall>ac\<in>set acs. \<forall>s\<in>set (map_get mc1 (ef_toString L ac)).
         N @ s \<in> set (map_get mc' (ef_toString L (condensation L F_N ac)))"
    by blast+
  have "new' = new @ map (condensation L F_N) (ac # acs)" using n p1(1) by simp
  moreover have "all' = all @ map (condensation L F_N) (ac # acs)" using a p1(2) by simp
  moreover have "grows mc mc'" using p1(3) g by (rule grows_trans)
  moreover have "map_keys mc' \<subseteq> map_keys mc \<union> ef_toString L ` set (ac # acs)
                       \<union> ef_toString L ` condensation L F_N ` set (ac # acs)"
    using k p1(4) by auto
  moreover have "\<forall>x\<in>set (ac # acs). \<forall>s\<in>set (map_get mc (ef_toString L x)).
         N @ s \<in> set (map_get mc' (ef_toString L (condensation L F_N x)))"
  proof (intro ballI)
    fix x s assume x: "x \<in> set (ac # acs)" and s: "s \<in> set (map_get mc (ef_toString L x))"
    show "N @ s \<in> set (map_get mc' (ef_toString L (condensation L F_N x)))"
    proof (cases "x = ac")
      case True
      with p1(5) s have "N @ s \<in> set (map_get mc1 (ef_toString L (condensation L F_N ac)))"
        by blast
      with g True show ?thesis by (simp add: grows_get)
    next
      case False
      with x have "x \<in> set acs" by simp
      moreover from s p1(3) have "s \<in> set (map_get mc1 (ef_toString L x))" by (simp add: grows_get)
      ultimately show ?thesis using c by blast
    qed
  qed
  ultimately show ?case by blast
qed

lemma set_round_formulas:
  "set (round_formulas L t2f actual) = {condensation L F_N ac |N F_N ac. (N, F_N) \<in> set t2f \<and> ac \<in> set actual}"
  by (auto simp: round_formulas_def)

lemma extend_targets_post:
  "ofold (\<lambda>(N, F_N). ofold (extend_combination L N F_N) actual) t2f (new, all, mc)
      = Some (new', all', mc') \<Longrightarrow>
     new' = new @ round_formulas L t2f actual
   \<and> all' = all @ round_formulas L t2f actual
   \<and> grows mc mc'
   \<and> map_keys mc' \<subseteq> map_keys mc \<union> ef_toString L ` set actual
                       \<union> ef_toString L ` set (round_formulas L t2f actual)
   \<and> (\<forall>(N, F_N)\<in>set t2f. \<forall>ac\<in>set actual. \<forall>s\<in>set (map_get mc (ef_toString L ac)).
         N @ s \<in> set (map_get mc' (ef_toString L (condensation L F_N ac))))"
proof (induction t2f arbitrary: new all mc)
  case Nil
  then show ?case by (simp add: grows_refl round_formulas_def)
next
  case (Cons e t2f)
  obtain N F_N where e: "e = (N, F_N)" by (cases e)
  from Cons.prems obtain st1 where
    first: "ofold (extend_combination L N F_N) actual (new, all, mc) = Some st1"
    and rest: "ofold (\<lambda>(N, F_N). ofold (extend_combination L N F_N) actual) t2f st1
                 = Some (new', all', mc')"
    by (auto simp: e split: option.splits)
  obtain new1 all1 mc1 where st1: "st1 = (new1, all1, mc1)" by (cases st1)
  from extend_all_post [OF first [unfolded st1]] have
    n1: "new1 = new @ map (condensation L F_N) actual" and
    a1: "all1 = all @ map (condensation L F_N) actual" and
    g1: "grows mc mc1" and
    k1: "map_keys mc1 \<subseteq> map_keys mc \<union> ef_toString L ` set actual
                       \<union> ef_toString L ` condensation L F_N ` set actual" and
    c1: "\<forall>ac\<in>set actual. \<forall>s\<in>set (map_get mc (ef_toString L ac)).
         N @ s \<in> set (map_get mc1 (ef_toString L (condensation L F_N ac)))"
    by blast+
  from Cons.IH [OF rest [unfolded st1]] have
    n: "new' = new1 @ round_formulas L t2f actual" and
    a: "all' = all1 @ round_formulas L t2f actual" and
    g: "grows mc1 mc'" and
    k: "map_keys mc' \<subseteq> map_keys mc1 \<union> ef_toString L ` set actual
                       \<union> ef_toString L ` set (round_formulas L t2f actual)" and
    c: "\<forall>(N, F_N)\<in>set t2f. \<forall>ac\<in>set actual. \<forall>s\<in>set (map_get mc1 (ef_toString L ac)).
         N @ s \<in> set (map_get mc' (ef_toString L (condensation L F_N ac)))"
    by blast+
  have rf: "round_formulas L (e # t2f) actual
      = map (condensation L F_N) actual @ round_formulas L t2f actual"
    by (simp add: round_formulas_def e)
  have "new' = new @ round_formulas L (e # t2f) actual" using n n1 rf by simp
  moreover have "all' = all @ round_formulas L (e # t2f) actual" using a a1 rf by simp
  moreover have "grows mc mc'" using g1 g by (rule grows_trans)
  moreover have "map_keys mc' \<subseteq> map_keys mc \<union> ef_toString L ` set actual
                       \<union> ef_toString L ` set (round_formulas L (e # t2f) actual)"
    using k k1 unfolding rf by auto
  moreover have "\<forall>(N, F_N)\<in>set (e # t2f). \<forall>ac\<in>set actual. \<forall>s\<in>set (map_get mc (ef_toString L ac)).
         N @ s \<in> set (map_get mc' (ef_toString L (condensation L F_N ac)))"
  proof (clarify)
    fix N' F_N' ac s
    assume x: "(N', F_N') \<in> set (e # t2f)" and ac: "ac \<in> set actual"
      and s: "s \<in> set (map_get mc (ef_toString L ac))"
    show "N' @ s \<in> set (map_get mc' (ef_toString L (condensation L F_N' ac)))"
    proof (cases "(N', F_N') = e")
      case True
      with e have "N' = N" "F_N' = F_N" by simp_all
      with c1 ac s have "N' @ s \<in> set (map_get mc1 (ef_toString L (condensation L F_N' ac)))"
        by blast
      with g show ?thesis by (simp add: grows_get)
    next
      case False
      with x have "(N', F_N') \<in> set t2f" by auto
      moreover from s g1 have "s \<in> set (map_get mc1 (ef_toString L ac))" by (simp add: grows_get)
      ultimately show ?thesis using c ac by blast
    qed
  qed
  ultimately show ?case by blast
qed

lemma chain_round_post:
  assumes "chain_round L t2f (actual, all, mc) = Some (new', all', mc')"
  shows "new' = round_formulas L t2f actual"
    and "all' = all @ round_formulas L t2f actual"
    and "grows mc mc'"
    and "map_keys mc' \<subseteq> map_keys mc \<union> ef_toString L ` set actual
                       \<union> ef_toString L ` set (round_formulas L t2f actual)"
    and "\<forall>(N, F_N)\<in>set t2f. \<forall>ac\<in>set actual. \<forall>s\<in>set (map_get mc (ef_toString L ac)).
         N @ s \<in> set (map_get mc' (ef_toString L (condensation L F_N ac)))"
  using extend_targets_post [of L actual t2f "[]" all mc new' all' mc'] assms
  unfolding chain_round_def by simp_all













lemma ofold_invariant:
  assumes "ofold f xs s = Some s'" and "I s"
    and "\<And>x a b. x \<in> set xs \<Longrightarrow> I a \<Longrightarrow> f x a = Some b \<Longrightarrow> I b"
  shows "I s'"
  using assms
proof (induction xs arbitrary: s)
  case Nil
  then show ?case by simp
next
  case (Cons x xs)
  from Cons.prems(1) obtain s1 where 1: "f x s = Some s1" and 2: "ofold f xs s1 = Some s'"
    by (auto split: option.splits)
  have "I s1" using Cons.prems(3) [of x s s1] Cons.prems(2) 1 by simp
  moreover have "\<And>y a b. y \<in> set xs \<Longrightarrow> I a \<Longrightarrow> f y a = Some b \<Longrightarrow> I b"
    using Cons.prems(3) by (meson list.set_intros(2))
  ultimately show ?case using Cons.IH [OF 2] by blast
qed

lemma add_modified_nucleotide_keyed:
  assumes "well_keyed L actual mc"
  shows "well_keyed L (fst (add_modified_nucleotide L N F [] nt_mod (actual, mc)))
           (snd (add_modified_nucleotide L N F [] nt_mod (actual, mc)))"
  using assms
  by (auto simp: add_modified_nucleotide_def well_keyed_def Let_def split_beta
        map_keys_map_insert distinct_map_insert)

lemma modified_nucleotides_keyed:
  "well_keyed L (fst (modified_nucleotides L t2f nm)) (snd (modified_nucleotides L t2f nm))"
proof -
  let ?I = "\<lambda>st. well_keyed L (fst st) (snd st)"
  have inner: "?I (fold (add_modified_nucleotide L N F []) mods st)" if "?I st" for N F mods st
    using that
  proof (induction mods arbitrary: st)
    case Nil
    then show ?case by simp
  next
    case (Cons m mods)
    have "?I (add_modified_nucleotide L N F [] m st)"
      using add_modified_nucleotide_keyed [of L "fst st" "snd st" N F m] Cons.prems by simp
    from Cons.IH [OF this] show ?case by simp
  qed
  have "?I (fold (\<lambda>(target_nucleotide, target_nucleotide_formula) st.
             (let nt_mods = map_get nm target_nucleotide;
                  formulas_of_modified_nucleotide = []
              in fold (add_modified_nucleotide L target_nucleotide target_nucleotide_formula
                         formulas_of_modified_nucleotide) nt_mods st)) t2f st)"
    if "?I st" for st
    using that
  proof (induction t2f arbitrary: st)
    case Nil
    then show ?case by simp
  next
    case (Cons e t2f)
    obtain N F where e: "e = (N, F)" by (cases e)
    have "?I (fold (add_modified_nucleotide L N F []) (map_get nm N) st)"
      using inner Cons.prems by blast
    from Cons.IH [OF this] show ?case by (simp add: e)
  qed
  from this [of "([], [])"] show ?thesis
    by (simp add: modified_nucleotides_def well_keyed_def)
qed

lemma chain_round_keyed:
  assumes run: "chain_round L t2f (actual, all, mc) = Some (new', all', mc')"
    and sub: "set actual \<subseteq> set all" and wk: "well_keyed L all mc"
  shows "set new' \<subseteq> set all' \<and> well_keyed L all' mc'"
proof -
  note post = chain_round_post [OF run]
  have "set new' \<subseteq> set all'" using post(1,2) by auto
  moreover have "distinct (map fst mc')" using post(3) wk grows_distinct well_keyed_def by blast
  moreover have "map_keys mc' \<subseteq> ef_toString L ` set all'"
  proof
    fix k assume "k \<in> map_keys mc'"
    with post(4) have "k \<in> map_keys mc \<or> k \<in> ef_toString L ` set actual
        \<or> k \<in> ef_toString L ` set (round_formulas L t2f actual)" by blast
    moreover have "map_keys mc \<subseteq> ef_toString L ` set all" using wk by (simp add: well_keyed_def)
    ultimately show "k \<in> ef_toString L ` set all'"
      using sub unfolding post(2) by auto
  qed
  ultimately show ?thesis by (simp add: well_keyed_def)
qed

lemma generate_combinations_keyed:
  assumes "generate_combinations L t2f nm max_length = Some (Inr (all, mc))"
  shows "well_keyed L all mc"
proof -
  obtain actual mc0 where m: "modified_nucleotides L t2f nm = (actual, mc0)"
    by (cases "modified_nucleotides L t2f nm")
  have wk0: "well_keyed L actual mc0" using modified_nucleotides_keyed [of L t2f nm] m by simp
  from assms m obtain new where
    loop: "chain_loop L t2f max_length 0 (actual, actual, mc0) = Some (Inr (new, all, mc))"
    by (auto simp: generate_combinations_def split: option.splits sum.splits)
  have range: "Int_min \<le> max_length - 1"
    using loop chain_loop_overflow [of max_length L t2f 0 "(actual, actual, mc0)"]
    by (cases "max_length - 1 < Int_min") simp_all
  have eq: "chain_loop L t2f max_length 0 (actual, actual, mc0)
      = map_option Inr (ofold (\<lambda>round. chain_round L t2f) [0..<nat (max_length - 1)]
                          (actual, actual, mc0))"
    using chain_loop_rounds [of 0 max_length L t2f "(actual, actual, mc0)"] range by simp
  have o: "ofold (\<lambda>round. chain_round L t2f) [0..<nat (max_length - 1)] (actual, actual, mc0)
      = Some (new, all, mc)"
    using loop unfolding eq
    by (cases "ofold (\<lambda>round. chain_round L t2f) [0..<nat (max_length - 1)] (actual, actual, mc0)")
       simp_all
  let ?I = "\<lambda>st. case st of (a, al, m) \<Rightarrow> set a \<subseteq> set al \<and> well_keyed L al m"
  have "?I (new, all, mc)"
  proof (rule ofold_invariant [OF o, of ?I])
    show "?I (actual, actual, mc0)" using wk0 by simp
  next
    fix x a b
    assume a: "?I a" and step: "chain_round L t2f a = Some b"
    obtain a1 a2 a3 where a': "a = (a1, a2, a3)" by (cases a)
    obtain b1 b2 b3 where b': "b = (b1, b2, b3)" by (cases b)
    show "?I b"
      using chain_round_keyed [of L t2f a1 a2 a3 b1 b2 b3] a step unfolding a' b' by simp
  qed
  then show ?thesis by simp
qed

lemma masses_of_keys_gen:
  "map_keys (fold (\<lambda>f m. map_set (ef_toString L f) (ef_getMonoWeight L f) m) all m0)
     = map_keys m0 \<union> ef_toString L ` set all"
  by (induction all arbitrary: m0) (auto simp: map_keys_map_set)

lemma masses_of_keys: "map_keys (masses_of L all) = ef_toString L ` set all"
  by (simp add: masses_of_def masses_of_keys_gen)

lemma length_filter_eq_iff: "length (filter P xs) = length xs \<longleftrightarrow> (\<forall>x\<in>set xs. P x)"
proof (induction xs)
  case Nil
  show ?case by simp
next
  case (Cons x xs)
  have le: "length (filter P xs) < Suc (length xs)" by (rule le_imp_less_Suc) simp
  show ?case
  proof (cases "P x")
    case True
    with Cons show ?thesis by simp
  next
    case False
    with le have "length (filter P (x # xs)) \<noteq> length (x # xs)" by auto
    with False show ?thesis by auto
  qed
qed

lemma check_ambiguity_post:
  assumes "check_ambiguity nt xl ml ts formula mass s (u, v) = (u', v')"
  shows "set v \<subseteq> set v'" and "set v' \<subseteq> insert (formula, s) (set v)"
    and "(formula, s) \<in> set v' \<or> passes_rules nt xl ml ts s"
proof -
  have all: "set v \<subseteq> set v' \<and> set v' \<subseteq> insert (formula, s) (set v)
    \<and> ((formula, s) \<in> set v' \<or> passes_rules nt xl ml ts s)"
    using assms
    by (auto simp: check_ambiguity_def Let_def passes_rules_def list_ex_iff
          length_filter_eq_iff not_less not_le split: if_splits)
  then show "set v \<subseteq> set v'" and "set v' \<subseteq> insert (formula, s) (set v)"
    and "(formula, s) \<in> set v' \<or> passes_rules nt xl ml ts s" by blast+
qed

lemma check_all_post:
  "fold (check_ambiguity nt xl ml ts formula mass) ambs (u, v) = (u', v') \<Longrightarrow>
     set v \<subseteq> set v' \<and> set v' \<subseteq> set v \<union> {formula} \<times> set ambs
   \<and> (\<forall>s\<in>set ambs. (formula, s) \<in> set v' \<or> passes_rules nt xl ml ts s)"
proof (induction ambs arbitrary: u v)
  case Nil
  then show ?case by simp
next
  case (Cons s ambs)
  obtain u1 v1 where 1: "check_ambiguity nt xl ml ts formula mass s (u, v) = (u1, v1)"
    by (cases "check_ambiguity nt xl ml ts formula mass s (u, v)")
  with Cons.prems have 2: "fold (check_ambiguity nt xl ml ts formula mass) ambs (u1, v1) = (u', v')"
    by simp
  note p = check_ambiguity_post [OF 1]
  from Cons.IH [OF 2] have
    a: "set v1 \<subseteq> set v'" and b: "set v' \<subseteq> set v1 \<union> {formula} \<times> set ambs"
    and c: "\<forall>s\<in>set ambs. (formula, s) \<in> set v' \<or> passes_rules nt xl ml ts s"
    by blast+
  have "set v \<subseteq> set v'" using p(1) a by blast
  moreover have "set v' \<subseteq> set v \<union> {formula} \<times> set (s # ambs)" using p(2) b by auto
  moreover have "\<forall>x\<in>set (s # ambs). (formula, x) \<in> set v' \<or> passes_rules nt xl ml ts x"
    using p(3) a c by auto
  ultimately show ?case by blast
qed

lemma restriction_filter_gen:
  "fold (\<lambda>(formula, mass) (mc, st).
             (let mc1 = map_touch formula mc;
                  ambiguities = map_get mc1 formula
              in (mc1, fold (check_ambiguity nt xl ml ts formula mass) ambiguities st)))
          f2m (mc, (u, v)) = (mc', (u', v')) \<Longrightarrow>
     map_keys mc' = map_keys mc \<union> map_keys f2m
   \<and> (\<forall>k. map_get mc' k = map_get mc k)
   \<and> (distinct (map fst mc) \<longrightarrow> distinct (map fst mc'))
   \<and> set v \<subseteq> set v'
   \<and> fst ` set v' \<subseteq> fst ` set v \<union> map_keys f2m
   \<and> (\<forall>formula\<in>map_keys f2m. \<forall>s\<in>set (map_get mc formula).
         (formula, s) \<in> set v' \<or> passes_rules nt xl ml ts s)"
proof (induction f2m arbitrary: mc u v)
  case Nil
  then show ?case by simp
next
  case (Cons e f2m)
  obtain formula mass where e: "e = (formula, mass)" by (cases e)
  define mc1 where "mc1 = map_touch formula mc"
  obtain u1 v1 where 1: "fold (check_ambiguity nt xl ml ts formula mass) (map_get mc1 formula) (u, v)
      = (u1, v1)"
    by (cases "fold (check_ambiguity nt xl ml ts formula mass) (map_get mc1 formula) (u, v)")
  from Cons.prems have 2: "fold (\<lambda>(formula, mass) (mc, st).
             (let mc1 = map_touch formula mc;
                  ambiguities = map_get mc1 formula
              in (mc1, fold (check_ambiguity nt xl ml ts formula mass) ambiguities st)))
          f2m (mc1, (u1, v1)) = (mc', (u', v'))"
    by (simp add: e Let_def mc1_def [symmetric] 1)
  from check_all_post [OF 1] have
    p1: "set v \<subseteq> set v1" and p2: "set v1 \<subseteq> set v \<union> {formula} \<times> set (map_get mc1 formula)"
    and p3: "\<forall>s\<in>set (map_get mc1 formula). (formula, s) \<in> set v1 \<or> passes_rules nt xl ml ts s"
    by blast+
  from Cons.IH [OF 2] have
    k: "map_keys mc' = map_keys mc1 \<union> map_keys f2m" and
    g: "\<forall>k. map_get mc' k = map_get mc1 k" and
    d: "distinct (map fst mc1) \<longrightarrow> distinct (map fst mc')" and
    s: "set v1 \<subseteq> set v'" and
    f: "fst ` set v' \<subseteq> fst ` set v1 \<union> map_keys f2m" and
    c: "\<forall>formula\<in>map_keys f2m. \<forall>s\<in>set (map_get mc1 formula).
         (formula, s) \<in> set v' \<or> passes_rules nt xl ml ts s"
    by blast+
  have get1: "\<And>k. map_get mc1 k = map_get mc k" by (simp add: mc1_def map_get_map_touch)
  have keys_e: "map_keys (e # f2m) = insert formula (map_keys f2m)"
    by (simp add: map_keys_def e)
  have "map_keys mc' = map_keys mc \<union> map_keys (e # f2m)"
    using k by (auto simp: mc1_def map_keys_map_touch keys_e)
  moreover have "\<forall>k. map_get mc' k = map_get mc k" using g get1 by simp
  moreover have "distinct (map fst mc) \<longrightarrow> distinct (map fst mc')"
    using d by (simp add: mc1_def distinct_map_touch)
  moreover have "set v \<subseteq> set v'" using p1 s by blast
  moreover have "fst ` set v' \<subseteq> fst ` set v \<union> map_keys (e # f2m)"
  proof
    fix x assume "x \<in> fst ` set v'"
    with f have "x \<in> fst ` set v1 \<or> x \<in> map_keys f2m" by blast
    moreover have "fst ` set v1 \<subseteq> insert formula (fst ` set v)" using p2 by auto
    ultimately show "x \<in> fst ` set v \<union> map_keys (e # f2m)" unfolding keys_e by blast
  qed
  moreover have "\<forall>x\<in>map_keys (e # f2m). \<forall>s\<in>set (map_get mc x).
         (x, s) \<in> set v' \<or> passes_rules nt xl ml ts s"
  proof (intro ballI)
    fix x s assume x: "x \<in> map_keys (e # f2m)" and s': "s \<in> set (map_get mc x)"
    show "(x, s) \<in> set v' \<or> passes_rules nt xl ml ts s"
    proof (cases "x = formula")
      case True
      with p3 s' get1 have "(formula, s) \<in> set v1 \<or> passes_rules nt xl ml ts s" by simp
      with s True show ?thesis by blast
    next
      case False
      with x have "x \<in> map_keys f2m" by (simp add: keys_e)
      with c s' get1 show ?thesis by simp
    qed
  qed
  ultimately show ?case by blast
qed

lemma restriction_filter_post:
  assumes "restriction_filter nt xl ml ts f2m mc = (mc', (u', v'))"
  shows "map_keys mc' = map_keys mc \<union> map_keys f2m"
    and "\<And>k. map_get mc' k = map_get mc k"
    and "distinct (map fst mc) \<Longrightarrow> distinct (map fst mc')"
    and "fst ` set v' \<subseteq> map_keys f2m"
    and "\<And>formula s. formula \<in> map_keys f2m \<Longrightarrow> s \<in> set (map_get mc formula)
           \<Longrightarrow> (formula, s) \<in> set v' \<or> passes_rules nt xl ml ts s"
  using restriction_filter_gen [of nt xl ml ts f2m mc "[]" "[]" mc' u' v'] assms
  unfolding restriction_filter_def by auto

lemma erase_violations_post:
  "map_keys (erase_violations v mc) = map_keys mc \<union> fst ` set v
   \<and> (\<forall>k. set (map_get (erase_violations v mc) k) = set (map_get mc k) - {s. (k, s) \<in> set v})
   \<and> (distinct (map fst mc) \<longrightarrow> distinct (map fst (erase_violations v mc)))"
proof (induction v arbitrary: mc)
  case Nil
  show ?case by (simp add: erase_violations_def)
next
  case (Cons e v)
  obtain f s where e: "e = (f, s)" by (cases e)
  have step: "erase_violations (e # v) mc = erase_violations v (map_set_erase f s mc)"
    by (simp add: erase_violations_def e)
  show ?case
    unfolding step
    using Cons [of "map_set_erase f s mc"]
    by (auto simp: map_keys_map_set_erase map_get_map_set_erase distinct_map_set_erase e)
qed

lemma map_of_filter_distinct:
  "distinct (map fst m) \<Longrightarrow>
   map_of (filter P m) k = (case map_of m k of None \<Rightarrow> None
                            | Some v \<Rightarrow> if P (k, v) then Some v else None)"
proof (induction m)
  case Nil
  show ?case by simp
next
  case (Cons e m)
  obtain a b where e: "e = (a, b)" by (cases e)
  from Cons.prems have d: "distinct (map fst m)" and na: "a \<notin> fst ` set m" by (auto simp: e)
  have none: "map_of m a = None" using na by (simp add: map_of_eq_None_iff)
  have none': "map_of (filter P m) a = None"
    using na by (auto simp: map_of_eq_None_iff)
  show ?case using Cons.IH [OF d] none none' by (auto simp: e)
qed

lemma erase_empty_snd: "snd (erase_empty mc f2m) = filter (\<lambda>e. snd e \<noteq> []) mc"
  by (induction mc f2m rule: erase_empty.induct) (auto simp: split_beta)

lemma map_keys_map_erase: "map_keys (map_erase k m) = map_keys m - {k}"
  by (auto simp: map_keys_def map_erase_def)

lemma erase_empty_fst:
  "map_keys (fst (erase_empty mc f2m)) = map_keys f2m - {k. (k, []) \<in> set mc}"
  by (induction mc f2m rule: erase_empty.induct) (auto simp: split_beta map_keys_map_erase)

lemma erase_empty_post:
  assumes d: "distinct (map fst mc)"
  shows "map_keys (snd (erase_empty mc f2m)) = {k \<in> map_keys mc. map_get mc k \<noteq> []}"
    and "map_keys (fst (erase_empty mc f2m)) = map_keys f2m - {k \<in> map_keys mc. map_get mc k = []}"
    and "\<And>k. map_get (snd (erase_empty mc f2m)) k = map_get mc k"
    and "distinct (map fst (snd (erase_empty mc f2m)))"
proof -
  have ent: "(k, S) \<in> set mc \<longleftrightarrow> k \<in> map_keys mc \<and> map_get mc k = S" for k S
    using d map_get_entry [OF d] map_get_in_entries [of k mc]
    by (auto simp: map_keys_def intro: rev_image_eqI)
  show "map_keys (snd (erase_empty mc f2m)) = {k \<in> map_keys mc. map_get mc k \<noteq> []}"
  proof (rule set_eqI)
    fix k
    have "k \<in> map_keys (filter (\<lambda>e. snd e \<noteq> []) mc) \<longleftrightarrow> (\<exists>S. (k, S) \<in> set mc \<and> S \<noteq> [])"
      by (force simp: map_keys_def)
    then show "k \<in> map_keys (snd (erase_empty mc f2m)) \<longleftrightarrow> k \<in> {k \<in> map_keys mc. map_get mc k \<noteq> []}"
      unfolding erase_empty_snd using ent by auto
  qed
  show "map_keys (fst (erase_empty mc f2m)) = map_keys f2m - {k \<in> map_keys mc. map_get mc k = []}"
    unfolding erase_empty_fst using ent by auto
  show "map_get (snd (erase_empty mc f2m)) k = map_get mc k" for k
    unfolding erase_empty_snd map_get_def map_of_filter_distinct [OF d]
    by (auto split: option.splits)
  show "distinct (map fst (snd (erase_empty mc f2m)))"
    unfolding erase_empty_snd using d by (simp add: distinct_map_filter)
qed

lemma print_adducts_id:
  "map_keys f2m \<subseteq> map_keys mc \<Longrightarrow> print_adducts L cys f2m mc = mc"
proof -
  assume sub: "map_keys f2m \<subseteq> map_keys mc"
  have "fold (\<lambda>(k, mass) mc.
             if cys \<and> k = ef_toString L (ef_cysteine L) then mc else map_touch k mc) xs mc = mc"
    if "fst ` set xs \<subseteq> map_keys mc" for xs
    using that
  proof (induction xs)
    case Nil
    show ?case by simp
  next
    case (Cons e xs)
    obtain k m where e: "e = (k, m)" by (cases e)
    from Cons.prems have "k \<in> map_keys mc" by (simp add: e)
    then have "map_touch k mc = mc" by (simp add: map_touch_def)
    with Cons show ?case by (cases cys) (simp_all add: e)
  qed
  from this [of f2m] sub show ?thesis by (simp add: print_adducts_def map_keys_def)
qed

subsection \<open>The filtered result\<close>

lemma filter_and_assemble_post:
  fixes L :: "('f, 'm) formula_library" and nt xl ml cys ts
  assumes wk: "well_keyed L all mc"
  defines "r \<equiv> filter_and_assemble L nt xl ml cys ts all mc"
  shows "map_keys (formula2mass r) = map_keys (mod_combinations r)"
    and "distinct (map fst (mod_combinations r))"
    and "\<forall>k\<in>map_keys (mod_combinations r). map_get (mod_combinations r) k \<noteq> []"
    and "\<forall>k s. s \<in> set (map_get (mod_combinations r) k) \<longrightarrow>
           (cys \<and> k = ef_toString L (ef_cysteine L) \<and> s = cysteine_adduct_string)
           \<or> (s \<in> set (map_get mc k) \<and> passes_rules nt xl ml ts s)"
    and "cys \<longrightarrow> cysteine_adduct_string
           \<in> set (map_get (mod_combinations r) (ef_toString L (ef_cysteine L)))"
proof -
  define f2m where "f2m = masses_of L all"
  obtain mc1 u v where rf: "restriction_filter nt xl ml ts f2m mc = (mc1, (u, v))"
    by (metis prod.exhaust)
  define mc2 where "mc2 = erase_violations v mc1"
  define f2m3 where "f2m3 = fst (erase_empty mc2 f2m)"
  define mc3 where "mc3 = snd (erase_empty mc2 f2m)"
  define ck where "ck = ef_toString L (ef_cysteine L)"
  have ee_eq: "erase_empty mc2 f2m = (f2m3, mc3)" by (simp add: f2m3_def mc3_def)
  define f2m4 where "f2m4 = fst (add_cysteine_adduct L cys (f2m3, mc3))"
  define mc4 where "mc4 = snd (add_cysteine_adduct L cys (f2m3, mc3))"
  have r: "r = \<lparr>formula2mass = f2m4, mod_combinations = print_adducts L cys f2m4 mc4\<rparr>"
    unfolding r_def filter_and_assemble_def
    by (simp add: Let_def f2m_def [symmetric] rf mc2_def [symmetric] split_beta
          ee_eq f2m4_def [symmetric] mc4_def [symmetric])
  let ?K = "ef_toString L ` set all"
  have kf: "map_keys f2m = ?K" by (simp add: f2m_def masses_of_keys)
  from wk have dmc: "distinct (map fst mc)" and kmc: "map_keys mc \<subseteq> ?K"
    by (simp_all add: well_keyed_def)
  note p = restriction_filter_post [OF rf]
  have k1: "map_keys mc1 = ?K" using p(1) kf kmc by auto
  have d1: "distinct (map fst mc1)" using p(3) dmc by simp
  have vk: "fst ` set v \<subseteq> ?K" using p(4) kf by simp
  note ev = erase_violations_post [of v mc1]
  have k2: "map_keys mc2 = ?K" using ev k1 vk by (auto simp: mc2_def)
  have g2: "\<And>k. set (map_get mc2 k) = set (map_get mc k) - {s. (k, s) \<in> set v}"
    using ev p(2) by (simp add: mc2_def)
  have d2: "distinct (map fst mc2)" using ev d1 by (simp add: mc2_def)
  note ee = erase_empty_post [OF d2, of f2m]
  have k3: "map_keys mc3 = {k \<in> ?K. map_get mc2 k \<noteq> []}"
    using ee(1) k2 by (simp add: mc3_def)
  have kf3: "map_keys f2m3 = map_keys mc3"
    using ee(2) k2 kf k3 by (auto simp: f2m3_def)
  have g3: "\<And>k. map_get mc3 k = map_get mc2 k" using ee(3) by (simp add: mc3_def)
  have d3: "distinct (map fst mc3)" using ee(4) by (simp add: mc3_def)
  have k4: "map_keys mc4 = (if cys then insert ck (map_keys mc3) else map_keys mc3)"
    by (simp add: mc4_def add_cysteine_adduct_def map_keys_map_insert ck_def)
  have kf4: "map_keys f2m4 = map_keys mc4"
    by (simp add: f2m4_def mc4_def add_cysteine_adduct_def map_keys_map_insert map_keys_map_set kf3)
  have g4: "\<And>k. set (map_get mc4 k) =
      (if cys \<and> k = ck then insert cysteine_adduct_string (set (map_get mc3 ck))
       else set (map_get mc3 k))"
    by (simp add: mc4_def add_cysteine_adduct_def map_get_map_insert ck_def)
  have d4: "distinct (map fst mc4)"
    using d3 by (simp add: mc4_def add_cysteine_adduct_def distinct_map_insert)
  have pr: "print_adducts L cys f2m4 mc4 = mc4"
    by (rule print_adducts_id) (simp add: kf4)
  have mcr: "mod_combinations r = mc4" and fr: "formula2mass r = f2m4"
    by (simp_all add: r pr)
  show "map_keys (formula2mass r) = map_keys (mod_combinations r)"
    by (simp add: mcr fr kf4)
  show "distinct (map fst (mod_combinations r))" by (simp add: mcr d4)
  show "\<forall>k\<in>map_keys (mod_combinations r). map_get (mod_combinations r) k \<noteq> []"
  proof
    fix k assume "k \<in> map_keys (mod_combinations r)"
    then have k: "k \<in> map_keys mc4" by (simp add: mcr)
    have "set (map_get mc4 k) \<noteq> {}"
    proof (cases "cys \<and> k = ck")
      case True
      then show ?thesis by (simp add: g4)
    next
      case False
      with k k4 have "k \<in> map_keys mc3" by (auto split: if_splits)
      with k3 g3 have "map_get mc3 k \<noteq> []" by simp
      with False show ?thesis by (simp add: g4)
    qed
    then show "map_get (mod_combinations r) k \<noteq> []" by (auto simp: mcr)
  qed
  show "\<forall>k s. s \<in> set (map_get (mod_combinations r) k) \<longrightarrow>
           (cys \<and> k = ef_toString L (ef_cysteine L) \<and> s = cysteine_adduct_string)
           \<or> (s \<in> set (map_get mc k) \<and> passes_rules nt xl ml ts s)"
  proof (intro allI impI)
    fix k s assume "s \<in> set (map_get (mod_combinations r) k)"
    then have s4: "s \<in> set (map_get mc4 k)" by (simp add: mcr)
    show "(cys \<and> k = ef_toString L (ef_cysteine L) \<and> s = cysteine_adduct_string)
           \<or> (s \<in> set (map_get mc k) \<and> passes_rules nt xl ml ts s)"
    proof (cases "cys \<and> k = ck \<and> s = cysteine_adduct_string")
      case True
      then show ?thesis by (simp add: ck_def)
    next
      case False
      with s4 have "s \<in> set (map_get mc3 k)" by (auto simp: g4 split: if_splits)
      then have s: "s \<in> set (map_get mc k)" and nv: "(k, s) \<notin> set v"
        by (simp_all add: g3 g2)
      from s have "k \<in> map_keys mc" using map_get_absent [of k mc] by fastforce
      with kmc kf have "k \<in> map_keys f2m" by blast
      from p(5) [OF this s] nv have "passes_rules nt xl ml ts s" by blast
      with s show ?thesis by blast
    qed
  qed
  show "cys \<longrightarrow> cysteine_adduct_string
           \<in> set (map_get (mod_combinations r) (ef_toString L (ef_cysteine L)))"
    by (simp add: mcr g4 ck_def)
qed

lemma init_Inr_decompose:
  assumes "initModificationMassesNA L tn groups xl mp mods sr cys ml = Some (Inr r)"
  shows "\<exists>t2f nm all mc.
           generate_combinations L t2f nm ml = Some (Inr (all, mc))
           \<and> r = filter_and_assemble L groups xl ml cys
                   (target_sequences_of L tn mp mods sr ml) all mc"
proof -
  from assms obtain cfg where c: "read_configuration L tn mp mods sr ml = Inr cfg"
    using init_Inr by blast
  obtain t2f s2t sr' nm where cfg: "cfg = (t2f, s2t, sr', nm)" by (cases cfg) auto
  have ts: "target_sequences_of L tn mp mods sr ml = generateTargetSequences sr' 0 s2t []"
    by (simp add: target_sequences_of_def c cfg)
  from assms show ?thesis
    unfolding initModificationMassesNA_def c cfg ts
    by (auto simp: Let_def split: option.splits sum.splits)
qed

lemma init_Inr_keyed:
  assumes "initModificationMassesNA L tn groups xl mp mods sr cys ml = Some (Inr r)"
  shows "\<exists>all mc. well_keyed L all mc
           \<and> r = filter_and_assemble L groups xl ml cys
                   (target_sequences_of L tn mp mods sr ml) all mc"
  using init_Inr_decompose [OF assms] generate_combinations_keyed by blast

text \<open>
  C3. When the function returns a result, \<open>formula2mass\<close> and \<open>mod_combinations\<close> have the
  same keys and no key of \<open>mod_combinations\<close> has an empty set: a key whose set the filter
  empties is gone from both maps.
\<close>

theorem result_maps_synchronized:
  "initModificationMassesNA L target_nucleotides nt_groups can_xl mappings modifications
       sequence_restriction cysteine_adduct max_length = Some (Inr r) \<Longrightarrow>
     map_keys (formula2mass r) = map_keys (mod_combinations r)
   \<and> (\<forall>k\<in>map_keys (mod_combinations r). map_get (mod_combinations r) k \<noteq> [])
   \<and> distinct (map fst (mod_combinations r))
   \<and> (\<forall>(k, ambiguities)\<in>set (mod_combinations r). ambiguities \<noteq> [])"
proof -
  assume "initModificationMassesNA L target_nucleotides nt_groups can_xl mappings modifications
       sequence_restriction cysteine_adduct max_length = Some (Inr r)"
  from init_Inr_keyed [OF this] obtain all mc where wk: "well_keyed L all mc"
    and r: "r = filter_and_assemble L nt_groups can_xl max_length cysteine_adduct
                   (target_sequences_of L target_nucleotides mappings modifications
                      sequence_restriction max_length) all mc"
    by blast
  note p = filter_and_assemble_post [OF wk, where nt = nt_groups and xl = can_xl
      and ml = max_length and cys = cysteine_adduct
      and ts = "target_sequences_of L target_nucleotides mappings modifications
                  sequence_restriction max_length", folded r]
  have "\<forall>(k, ambiguities)\<in>set (mod_combinations r). ambiguities \<noteq> []"
  proof (clarify)
    fix k assume e: "(k, []) \<in> set (mod_combinations r)"
    then have "k \<in> map_keys (mod_combinations r)" by (force simp: map_keys_def)
    moreover have "map_get (mod_combinations r) k = []" using map_get_entry [OF p(2) e] .
    ultimately show False using p(3) by blast
  qed
  with p(1,2,3) show ?thesis by blast
qed

theorem result_maps_synchronized_witness:
  "map_keys [(''C19H25N7O15P2'', 653094::int), (''C4H8O2S2'', 151998), (''C9H13N2O9P1'', 324039)]
     = map_keys [(''C19H25N7O15P2'', [''AU'']), (''C4H8O2S2'', [''C4H8S2O2'']),
                 (''C9H13N2O9P1'', [''U''])]"
proof -
  have run: "initModificationMassesNA atoms_library [''A=C10H14N5O7P'', ''U=C9H13N2O9P''] []
      {CHR ''U''} [] [''A:'', ''U:''] ''AU'' True 2
    = Some (Inr \<lparr>formula2mass =
                    [(''C19H25N7O15P2'', 653094), (''C4H8O2S2'', 151998), (''C9H13N2O9P1'', 324039)],
                  mod_combinations =
                    [(''C19H25N7O15P2'', [''AU'']), (''C4H8O2S2'', [''C4H8S2O2'']),
                     (''C9H13N2O9P1'', [''U''])]\<rparr>)"
    by code_simp
  from result_maps_synchronized [OF run] show ?thesis by simp
qed

text \<open>
  C2 as amended. In a result returned, every string kept in a set of \<open>mod_combinations\<close>,
  other than the label of the cysteine adduct under the key of its formula when
  \<open>cysteine_adduct\<close> is set, has a sorted composition (the string up to its first \<open>+\<close> or
  \<open>-\<close>, sorted) with a cross-linkable symbol, at most one lower case symbol, a length of
  at most \<open>max_length\<close>, and is contained, in the sense of \<open>notInSeq\<close>, in one of the
  generated target sequences. The label of the cysteine adduct is added after the filter
  and is in the result whenever \<open>cysteine_adduct\<close> is set.
\<close>

theorem retained_ambiguities_pass_filter:
  "initModificationMassesNA L target_nucleotides nt_groups can_xl mappings modifications
       sequence_restriction cysteine_adduct max_length = Some (Inr r) \<Longrightarrow>
   (\<forall>k\<in>map_keys (mod_combinations r). \<forall>s\<in>set (map_get (mod_combinations r) k).
      \<not> (cysteine_adduct \<and> k = ef_toString L (ef_cysteine L) \<and> s = cysteine_adduct_string) \<longrightarrow>
        (\<exists>c\<in>set (sorted_composition s). c \<in> can_xl)
      \<and> length (filter islower (sorted_composition s)) \<le> 1
      \<and> int (length (sorted_composition s)) \<le> max_length
      \<and> (\<exists>t\<in>set (target_sequences_of L target_nucleotides mappings modifications
                      sequence_restriction max_length).
            \<not> notInSeq t (sorted_composition s)))
   \<and> (cysteine_adduct \<longrightarrow>
        cysteine_adduct_string \<in> set (map_get (mod_combinations r) (ef_toString L (ef_cysteine L))))"
proof -
  assume "initModificationMassesNA L target_nucleotides nt_groups can_xl mappings modifications
       sequence_restriction cysteine_adduct max_length = Some (Inr r)"
  from init_Inr_keyed [OF this] obtain all mc where wk: "well_keyed L all mc"
    and r: "r = filter_and_assemble L nt_groups can_xl max_length cysteine_adduct
                   (target_sequences_of L target_nucleotides mappings modifications
                      sequence_restriction max_length) all mc"
    by blast
  note p = filter_and_assemble_post [OF wk, where nt = nt_groups and xl = can_xl
      and ml = max_length and cys = cysteine_adduct
      and ts = "target_sequences_of L target_nucleotides mappings modifications
                  sequence_restriction max_length", folded r]
  show ?thesis
  proof (intro conjI ballI impI)
    fix k s
    assume "s \<in> set (map_get (mod_combinations r) k)"
      and "\<not> (cysteine_adduct \<and> k = ef_toString L (ef_cysteine L) \<and> s = cysteine_adduct_string)"
    with p(4) have pr: "passes_rules nt_groups can_xl max_length
        (target_sequences_of L target_nucleotides mappings modifications sequence_restriction max_length) s"
      by blast
    show "\<exists>c\<in>set (sorted_composition s). c \<in> can_xl"
      using pr by (simp add: passes_rules_def)
    show "length (filter islower (sorted_composition s)) \<le> 1"
      using pr by (simp add: passes_rules_def)
    show "int (length (sorted_composition s)) \<le> max_length"
      using pr by (simp add: passes_rules_def)
    show "\<exists>t\<in>set (target_sequences_of L target_nucleotides mappings modifications
                      sequence_restriction max_length).
            \<not> notInSeq t (sorted_composition s)"
      using pr by (simp add: passes_rules_def)
  next
    assume cysteine_adduct
    with p(5) show "cysteine_adduct_string \<in> set (map_get (mod_combinations r) (ef_toString L (ef_cysteine L)))"
      by simp
  qed
qed

theorem retained_ambiguities_pass_filter_witness:
  "CHR ''U'' \<in> set (sorted_composition ''AU'')
   \<and> int (length (sorted_composition ''AU'')) \<le> 2
   \<and> cysteine_adduct_string \<in> set (map_get [(''C19H25N7O15P2'', [''AU'']), (''C4H8O2S2'', [''C4H8S2O2'']),
                     (''C9H13N2O9P1'', [''U''])] ''C4H8O2S2'')"
proof -
  have run: "initModificationMassesNA atoms_library [''A=C10H14N5O7P'', ''U=C9H13N2O9P''] []
      {CHR ''U''} [] [''A:'', ''U:''] ''AU'' True 2
    = Some (Inr \<lparr>formula2mass =
                    [(''C19H25N7O15P2'', 653094), (''C4H8O2S2'', 151998), (''C9H13N2O9P1'', 324039)],
                  mod_combinations =
                    [(''C19H25N7O15P2'', [''AU'']), (''C4H8O2S2'', [''C4H8S2O2'']),
                     (''C9H13N2O9P1'', [''U''])]\<rparr>)"
    by code_simp
  have k: "''C19H25N7O15P2'' \<in> map_keys [(''C19H25N7O15P2'', [''AU'']), (''C4H8O2S2'', [''C4H8S2O2'']),
                     (''C9H13N2O9P1'', [''U''])]"
    by (simp add: map_keys_def)
  have s: "''AU'' \<in> set (map_get [(''C19H25N7O15P2'', [''AU'']), (''C4H8O2S2'', [''C4H8S2O2'']),
                     (''C9H13N2O9P1'', [''U''])] ''C19H25N7O15P2'')"
    by (simp add: map_get_def)
  have n: "\<not> (True \<and> ''C19H25N7O15P2'' = ef_toString atoms_library (ef_cysteine atoms_library)
               \<and> ''AU'' = cysteine_adduct_string)"
    by (simp add: cysteine_adduct_string_def)
  have ck: "ef_toString atoms_library (ef_cysteine atoms_library) = ''C4H8O2S2''" by code_simp
  from retained_ambiguities_pass_filter [OF run] k s n ck show ?thesis
    by (simp del: One_nat_def)
qed

theorem cysteine_adduct_label_counterexample:
  "initModificationMassesNA atoms_library [''U=C9H13N2O9P''] [] {CHR ''U''} [] [''U:''] ''U'' True 1
     = Some (Inr \<lparr>formula2mass = [(''C4H8O2S2'', 151998), (''C9H13N2O9P1'', 324039)],
                   mod_combinations = [(''C4H8O2S2'', [''C4H8S2O2'']), (''C9H13N2O9P1'', [''U''])]\<rparr>)
   \<and> sorted_composition ''C4H8S2O2'' = ''2248CHOS''
   \<and> CHR ''U'' \<notin> set ''2248CHOS''
   \<and> \<not> int (length ''2248CHOS'') \<le> 1
   \<and> notInSeq ''U'' ''2248CHOS''"
proof -
  have "initModificationMassesNA atoms_library [''U=C9H13N2O9P''] [] {CHR ''U''} [] [''U:''] ''U'' True 1
     = Some (Inr \<lparr>formula2mass = [(''C4H8O2S2'', 151998), (''C9H13N2O9P1'', 324039)],
                   mod_combinations = [(''C4H8O2S2'', [''C4H8S2O2'']), (''C9H13N2O9P1'', [''U''])]\<rparr>)"
    by code_simp
  moreover have "sorted_composition ''C4H8S2O2'' = ''2248CHOS''" by code_simp
  moreover have "notInSeq ''U'' ''2248CHOS''" by code_simp
  ultimately show ?thesis by simp
qed

subsection \<open>The generated restriction sequence in a run\<close>

lemma erase_trivial_identity:
  "\<forall>e\<in>set m. snd e = [fst e] \<Longrightarrow> erase_trivial m sr = ([], sr)"
proof (induction m arbitrary: sr)
  case Nil
  show ?case by simp
next
  case (Cons e m)
  obtain c ts where e: "e = (c, ts)" by (cases e)
  with Cons.prems have ts: "ts = [c]" by simp
  from Cons have "erase_trivial m sr = ([], sr)" by simp
  then show ?case by (simp add: e ts)
qed

lemma valid_count_no_rules: "valid_count res_seq [] = length res_seq"
  by (induction res_seq) (simp_all add: valid_count_def map_find_def)

lemma generateTargetSequences_no_rules:
  "generateTargetSequences res_seq param_pos [] target_sequences = target_sequences @ [res_seq]"
proof (induction "length res_seq - param_pos" arbitrary: param_pos)
  case 0
  then have "\<not> param_pos < length res_seq" by simp
  then show ?case
    by (subst generateTargetSequences.simps) (simp add: valid_count_no_rules)
next
  case (Suc n)
  then have lt: "param_pos < length res_seq" by simp
  from Suc.hyps(2) have "n = length res_seq - (param_pos + 1)" by simp
  from Suc.hyps(1) [OF this] lt show ?case
    by (subst generateTargetSequences.simps) (simp add: map_find_def)
qed

lemma read_configuration_generated:
  assumes "read_configuration L tn mp mods [] ml = Inr (t2f, s2t, sr, nm)"
  shows "\<exists>m. parse_mappings mp [] = Inr m
             \<and> (s2t, sr) = erase_trivial m (words_up_to (map first_char mp) (max 1 (nat ml)))"
  using assms
  by (auto simp: read_configuration_eq restriction_or_generated_eq split: sum.splits if_splits)

text \<open>
  C10 as amended. In a run with an empty restriction sequence that returns a result,
  the restriction sequence is generated as one string: the strings over the source
  symbols (the first characters of the mapping strings, in their order) of length 1,
  then of length 2, and so on up to \<open>max_length\<close>, one after the other. The loop over the
  rules renames in this string, and the target sequences are generated from it; when
  every rule has its source as its only target they are this one string. Every string
  kept in the result, the label of the cysteine adduct apart, has its sorted composition
  in a window of a target sequence; and the check of containment is passed by a window
  with the characters of the composition wherever it lies in a target sequence, also
  across the end of one of the concatenated strings and the start of the next.
\<close>

theorem generated_restriction_is_one_string:
  assumes "initModificationMassesNA L target_nucleotides nt_groups can_xl mappings modifications
             [] cysteine_adduct max_length = Some (Inr r)"
  shows "\<exists>map_target_to_formula map_source_to_targets sr map_to_nucleotide_modifications m.
           read_configuration L target_nucleotides mappings modifications [] max_length
             = Inr (map_target_to_formula, map_source_to_targets, sr, map_to_nucleotide_modifications)
         \<and> parse_mappings mappings [] = Inr m
         \<and> (map_source_to_targets, sr)
             = erase_trivial m (words_up_to (map first_char mappings) (max 1 (nat max_length)))
         \<and> target_sequences_of L target_nucleotides mappings modifications [] max_length
             = generateTargetSequences sr 0 map_source_to_targets []
         \<and> ((\<forall>e\<in>set m. snd e = [fst e]) \<longrightarrow>
               target_sequences_of L target_nucleotides mappings modifications [] max_length
                 = [words_up_to (map first_char mappings) (max 1 (nat max_length))])
         \<and> (\<forall>k\<in>map_keys (mod_combinations r). \<forall>s\<in>set (map_get (mod_combinations r) k).
               \<not> (cysteine_adduct \<and> k = ef_toString L (ef_cysteine L) \<and> s = cysteine_adduct_string)
               \<longrightarrow> (\<exists>t\<in>set (target_sequences_of L target_nucleotides mappings modifications []
                                 max_length).
                      \<exists>l. l + length (sorted_composition s) \<le> length t
                          \<and> mset (substr t l (length (sorted_composition s)))
                              = mset (sorted_composition s)))
         \<and> (\<forall>query.
               contained (target_sequences_of L target_nucleotides mappings modifications []
                            max_length) query
               \<longleftrightarrow> (\<exists>t\<in>set (target_sequences_of L target_nucleotides mappings modifications []
                                 max_length).
                      \<exists>l. l + length query \<le> length t
                          \<and> mset (substr t l (length query)) = mset query))"
proof -
  let ?G = "words_up_to (map first_char mappings) (max 1 (nat max_length))"
  let ?ts = "target_sequences_of L target_nucleotides mappings modifications [] max_length"
  from init_Inr [OF assms] obtain cfg where
    "read_configuration L target_nucleotides mappings modifications [] max_length = Inr cfg"
    by blast
  then obtain t2f s2t sr nm where
    cfg: "read_configuration L target_nucleotides mappings modifications [] max_length
            = Inr (t2f, s2t, sr, nm)"
    by (cases cfg) auto
  from read_configuration_generated [OF cfg] obtain m where
    m: "parse_mappings mappings [] = Inr m" and e: "(s2t, sr) = erase_trivial m ?G"
    by blast
  have ts: "?ts = generateTargetSequences sr 0 s2t []"
    by (simp add: target_sequences_of_def cfg)
  have ident: "?ts = [?G]" if "\<forall>e\<in>set m. snd e = [fst e]"
  proof -
    from erase_trivial_identity [OF that, of ?G] e have "s2t = []" "sr = ?G" by simp_all
    then show ?thesis by (simp add: ts generateTargetSequences_no_rules)
  qed
  from init_Inr_keyed [OF assms] obtain all mc where wk: "well_keyed L all mc"
    and r: "r = filter_and_assemble L nt_groups can_xl max_length cysteine_adduct ?ts all mc"
    by blast
  note p = filter_and_assemble_post [OF wk, where nt = nt_groups and xl = can_xl
      and ml = max_length and cys = cysteine_adduct and ts = ?ts, folded r]
  have windows: "\<exists>t\<in>set ?ts. \<exists>l. l + length (sorted_composition s) \<le> length t
                          \<and> mset (substr t l (length (sorted_composition s)))
                              = mset (sorted_composition s)"
    if s: "s \<in> set (map_get (mod_combinations r) k)"
      and n: "\<not> (cysteine_adduct \<and> k = ef_toString L (ef_cysteine L) \<and> s = cysteine_adduct_string)"
    for k s
  proof -
    from p(4) s n have pr: "passes_rules nt_groups can_xl max_length ?ts s" by blast
    then obtain t where t: "t \<in> set ?ts" "\<not> notInSeq t (sorted_composition s)"
      by (auto simp: passes_rules_def)
    from pr have "sorted_composition s \<noteq> []" by (auto simp: passes_rules_def)
    with t(2) notInSeq_iff [of t "sorted_composition s"]
    have "\<exists>l. l + length (sorted_composition s) \<le> length t
              \<and> mset (substr t l (length (sorted_composition s))) = mset (sorted_composition s)"
      by simp
    with t(1) show ?thesis by blast
  qed
  have anywhere: "contained ?ts query
      \<longleftrightarrow> (\<exists>t\<in>set ?ts. \<exists>l. l + length query \<le> length t
                          \<and> mset (substr t l (length query)) = mset query)" for query
  proof -
    have "\<not> notInSeq t query
        \<longleftrightarrow> (\<exists>l. l + length query \<le> length t \<and> mset (substr t l (length query)) = mset query)"
      for t
    proof (cases "query = []")
      case True
      have "0 + length query \<le> length t \<and> mset (substr t 0 (length query)) = mset query"
        by (simp add: True substr_def)
      then have "\<exists>l. l + length query \<le> length t \<and> mset (substr t l (length query)) = mset query"
        by blast
      with True notInSeq_iff [of t query] show ?thesis by simp
    next
      case False
      with notInSeq_iff [of t query] show ?thesis by simp
    qed
    then show ?thesis by (simp add: contained_def)
  qed
  from cfg m e ts ident windows anywhere show ?thesis by blast
qed

theorem generated_restriction_is_one_string_witness:
  "target_sequences_of atoms_library [''A=C10H14N5O7P'', ''U=C9H13N2O9P'']
       [''A->A'', ''U->U''] [''A:'', ''U:''] [] 1 = [''AU'']
   \<and> (\<exists>l. l + length (sorted_composition ''U'') \<le> length ''AU''
          \<and> mset (substr ''AU'' l (length (sorted_composition ''U'')))
              = mset (sorted_composition ''U''))
   \<and> notInSeq ''AU'' ''UA'' = False"
proof -
  let ?tn = "[''A=C10H14N5O7P'', ''U=C9H13N2O9P'']"
  let ?mp = "[''A->A'', ''U->U'']"
  let ?mods = "[''A:'', ''U:'']"
  let ?ts = "target_sequences_of atoms_library ?tn ?mp ?mods [] 1"
  have run: "initModificationMassesNA atoms_library ?tn [] {CHR ''U''} ?mp ?mods [] False 1
      = Some (Inr \<lparr>formula2mass = [(''C9H13N2O9P1'', 324039)],
                     mod_combinations = [(''C9H13N2O9P1'', [''U''])]\<rparr>)"
    by code_simp
  have parsed: "parse_mappings ?mp [] = Inr [(CHR ''A'', ''A''), (CHR ''U'', ''U'')]"
    by code_simp
  have G: "words_up_to (map first_char ?mp) (max 1 (nat 1)) = ''AU''"
    by code_simp
  have k: "''C9H13N2O9P1'' \<in> map_keys [(''C9H13N2O9P1'', [''U''])]"
    by (simp add: map_keys_def)
  have s: "''U'' \<in> set (map_get [(''C9H13N2O9P1'', [''U''])] ''C9H13N2O9P1'')"
    by (simp add: map_get_def)
  from generated_restriction_is_one_string [OF run] obtain m where
    m: "parse_mappings ?mp [] = Inr m"
    and one: "(\<forall>e\<in>set m. snd e = [fst e]) \<longrightarrow> ?ts = [''AU'']"
    and kept: "\<forall>k\<in>map_keys [(''C9H13N2O9P1'', [''U''])].
          \<forall>s\<in>set (map_get [(''C9H13N2O9P1'', [''U''])] k).
            \<not> (False \<and> k = ef_toString atoms_library (ef_cysteine atoms_library)
                 \<and> s = cysteine_adduct_string)
            \<longrightarrow> (\<exists>t\<in>set ?ts. \<exists>l. l + length (sorted_composition s) \<le> length t
                          \<and> mset (substr t l (length (sorted_composition s)))
                              = mset (sorted_composition s))"
    and anywhere: "\<forall>query. contained ?ts query
               \<longleftrightarrow> (\<exists>t\<in>set ?ts. \<exists>l. l + length query \<le> length t
                          \<and> mset (substr t l (length query)) = mset query)"
    unfolding G by auto
  from m parsed have "m = [(CHR ''A'', ''A''), (CHR ''U'', ''U'')]" by simp
  with one have ts: "?ts = [''AU'']" by simp
  from kept k s have "\<exists>t\<in>set ?ts. \<exists>l. l + length (sorted_composition ''U'') \<le> length t
                          \<and> mset (substr t l (length (sorted_composition ''U'')))
                              = mset (sorted_composition ''U'')"
    by blast
  with ts have first: "\<exists>l. l + length (sorted_composition ''U'') \<le> length ''AU''
          \<and> mset (substr ''AU'' l (length (sorted_composition ''U'')))
              = mset (sorted_composition ''U'')"
    by simp
  have "0 + length ''UA'' \<le> length ''AU'' \<and> mset (substr ''AU'' 0 (length ''UA'')) = mset ''UA''"
    by (simp add: substr_def)
  then have "\<exists>t\<in>set [''AU'']. \<exists>l. l + length ''UA'' \<le> length t
                          \<and> mset (substr t l (length ''UA'')) = mset ''UA''"
    by (metis list.set_intros(1))
  with anywhere ts have "contained [''AU''] ''UA''" by simp
  then have "notInSeq ''AU'' ''UA'' = False" by (simp add: contained_def)
  with ts first show ?thesis by simp
qed

theorem renamed_restriction_counterexample:
  "initModificationMassesNA atoms_library [''A=C10H14N5O7P''] [] {CHR ''A''} [''A->X'']
       [''A:''] [] False 1
     = Some (Inr \<lparr>formula2mass = [], mod_combinations = []\<rparr>)
   \<and> restriction_or_generated (map first_char [''A->X'']) 1 [] = Inr ''A''
   \<and> notInSeq ''A'' (sorted_composition ''A'') = False
   \<and> target_sequences_of atoms_library [''A=C10H14N5O7P''] [''A->X''] [''A:''] [] 1 = [''X'']
   \<and> initModificationMassesNA atoms_library [''A=C10H14N5O7P''] [] {CHR ''A''} [''A->A'']
       [''A:''] [] False 1
     = Some (Inr \<lparr>formula2mass = [(''C10H14N5O7P1'', 347066)],
                    mod_combinations = [(''C10H14N5O7P1'', [''A''])]\<rparr>)"
proof -
  have "initModificationMassesNA atoms_library [''A=C10H14N5O7P''] [] {CHR ''A''} [''A->X'']
       [''A:''] [] False 1
     = Some (Inr \<lparr>formula2mass = [], mod_combinations = []\<rparr>)"
    by code_simp
  moreover have "restriction_or_generated (map first_char [''A->X'']) 1 [] = Inr ''A''"
    by code_simp
  moreover have "notInSeq ''A'' (sorted_composition ''A'') = False"
    by code_simp
  moreover have "target_sequences_of atoms_library [''A=C10H14N5O7P''] [''A->X''] [''A:''] [] 1
      = [''X'']"
    by code_simp
  moreover have "initModificationMassesNA atoms_library [''A=C10H14N5O7P''] [] {CHR ''A''} [''A->A'']
       [''A:''] [] False 1
     = Some (Inr \<lparr>formula2mass = [(''C10H14N5O7P1'', 347066)],
                    mod_combinations = [(''C10H14N5O7P1'', [''A''])]\<rparr>)"
    by code_simp
  ultimately show ?thesis by blast
qed

subsection \<open>Single nucleotide combinations\<close>

lemma add_modified_nucleotide_eq:
  "add_modified_nucleotide L N F [] nt_mod (actual, mc)
     = (actual @ [fst (modified_nucleotide L N F nt_mod)],
        map_insert (ef_toString L (fst (modified_nucleotide L N F nt_mod)))
          (snd (modified_nucleotide L N F nt_mod)) mc)"
  by (simp add: add_modified_nucleotide_def modified_nucleotide_def split_beta)

lemma add_all_modified_post:
  "fold (add_modified_nucleotide L N F []) mods (actual, mc) = (actual', mc') \<Longrightarrow>
     actual' = actual @ map (\<lambda>m. fst (modified_nucleotide L N F m)) mods
   \<and> grows mc mc'
   \<and> (\<forall>m\<in>set mods. snd (modified_nucleotide L N F m)
          \<in> set (map_get mc' (ef_toString L (fst (modified_nucleotide L N F m)))))"
proof (induction mods arbitrary: actual mc)
  case Nil
  then show ?case by (simp add: grows_refl)
next
  case (Cons m mods)
  define mc1 where "mc1 = map_insert (ef_toString L (fst (modified_nucleotide L N F m)))
          (snd (modified_nucleotide L N F m)) mc"
  from Cons.prems have rest: "fold (add_modified_nucleotide L N F []) mods
      (actual @ [fst (modified_nucleotide L N F m)], mc1) = (actual', mc')"
    by (simp add: add_modified_nucleotide_eq mc1_def)
  from Cons.IH [OF rest] have
    a: "actual' = (actual @ [fst (modified_nucleotide L N F m)])
          @ map (\<lambda>m. fst (modified_nucleotide L N F m)) mods" and
    g: "grows mc1 mc'" and
    c: "\<forall>m\<in>set mods. snd (modified_nucleotide L N F m)
          \<in> set (map_get mc' (ef_toString L (fst (modified_nucleotide L N F m))))"
    by blast+
  have g1: "grows mc mc1" unfolding mc1_def by (rule grows_map_insert)
  have here: "snd (modified_nucleotide L N F m)
      \<in> set (map_get mc1 (ef_toString L (fst (modified_nucleotide L N F m))))"
    by (simp add: mc1_def map_get_map_insert)
  have "actual' = actual @ map (\<lambda>m. fst (modified_nucleotide L N F m)) (m # mods)"
    using a by simp
  moreover have "grows mc mc'" using g1 g by (rule grows_trans)
  moreover have "\<forall>x\<in>set (m # mods). snd (modified_nucleotide L N F x)
          \<in> set (map_get mc' (ef_toString L (fst (modified_nucleotide L N F x))))"
    using c here g by (auto simp: grows_get)
  ultimately show ?case by blast
qed

lemma modified_nucleotides_gen:
  "fold (\<lambda>(target_nucleotide, target_nucleotide_formula) st.
             (let nt_mods = map_get nm target_nucleotide;
                  formulas_of_modified_nucleotide = []
              in fold (add_modified_nucleotide L target_nucleotide target_nucleotide_formula
                         formulas_of_modified_nucleotide) nt_mods st))
          t2f (actual, mc) = (actual', mc') \<Longrightarrow>
     actual' = actual @ concat (map (\<lambda>(N, F). map (\<lambda>m. fst (modified_nucleotide L N F m))
                                        (map_get nm N)) t2f)
   \<and> grows mc mc'
   \<and> (\<forall>(N, F)\<in>set t2f. \<forall>m\<in>set (map_get nm N).
         snd (modified_nucleotide L N F m)
           \<in> set (map_get mc' (ef_toString L (fst (modified_nucleotide L N F m)))))"
proof (induction t2f arbitrary: actual mc)
  case Nil
  then show ?case by (simp add: grows_refl)
next
  case (Cons e t2f)
  obtain N F where e: "e = (N, F)" by (cases e)
  obtain actual1 mc1 where 1: "fold (add_modified_nucleotide L N F []) (map_get nm N) (actual, mc)
      = (actual1, mc1)"
    by (metis prod.exhaust)
  from Cons.prems have rest: "fold (\<lambda>(target_nucleotide, target_nucleotide_formula) st.
             (let nt_mods = map_get nm target_nucleotide;
                  formulas_of_modified_nucleotide = []
              in fold (add_modified_nucleotide L target_nucleotide target_nucleotide_formula
                         formulas_of_modified_nucleotide) nt_mods st))
          t2f (actual1, mc1) = (actual', mc')"
    by (simp add: e 1)
  from add_all_modified_post [OF 1] have
    a1: "actual1 = actual @ map (\<lambda>m. fst (modified_nucleotide L N F m)) (map_get nm N)" and
    g1: "grows mc mc1" and
    c1: "\<forall>m\<in>set (map_get nm N). snd (modified_nucleotide L N F m)
          \<in> set (map_get mc1 (ef_toString L (fst (modified_nucleotide L N F m))))"
    by blast+
  from Cons.IH [OF rest] have
    a: "actual' = actual1 @ concat (map (\<lambda>(N, F). map (\<lambda>m. fst (modified_nucleotide L N F m))
                                        (map_get nm N)) t2f)" and
    g: "grows mc1 mc'" and
    c: "\<forall>(N, F)\<in>set t2f. \<forall>m\<in>set (map_get nm N).
         snd (modified_nucleotide L N F m)
           \<in> set (map_get mc' (ef_toString L (fst (modified_nucleotide L N F m))))"
    by blast+
  have "actual' = actual @ concat (map (\<lambda>(N, F). map (\<lambda>m. fst (modified_nucleotide L N F m))
                                        (map_get nm N)) (e # t2f))"
    using a a1 by (simp add: e)
  moreover have "grows mc mc'" using g1 g by (rule grows_trans)
  moreover have "\<forall>(N, F)\<in>set (e # t2f). \<forall>m\<in>set (map_get nm N).
         snd (modified_nucleotide L N F m)
           \<in> set (map_get mc' (ef_toString L (fst (modified_nucleotide L N F m))))"
    using c c1 g by (auto simp: e grows_get)
  ultimately show ?case by blast
qed

lemma modified_nucleotides_post:
  "fst (modified_nucleotides L t2f nm)
     = concat (map (\<lambda>(N, F). map (\<lambda>m. fst (modified_nucleotide L N F m)) (map_get nm N)) t2f)
   \<and> (\<forall>(N, F)\<in>set t2f. \<forall>m\<in>set (map_get nm N).
         snd (modified_nucleotide L N F m)
           \<in> set (map_get (snd (modified_nucleotides L t2f nm))
                   (ef_toString L (fst (modified_nucleotide L N F m)))))"
proof -
  obtain a m where r: "modified_nucleotides L t2f nm = (a, m)" by (metis prod.exhaust)
  from modified_nucleotides_gen [of nm L t2f "[]" "[]" a m] r show ?thesis
    by (simp add: modified_nucleotides_def)
qed

lemma parse_empty_modification: "parse_modification L [c, CHR '':''] = Inr ([c], [])"
  by (simp add: parse_modification_def char_at_def split_def)

text \<open>
  C1 as amended. Every nucleotide of the target nucleotide map gives one single
  nucleotide combination for each of its modification specs, in order, and no other: its
  nucleotide style string is recorded under the formula it yields. The unmodified formula
  comes from the empty spec (as in \<open>A:\<close>), which parses to the empty modification; nothing
  is generated for a nucleotide without specs. With the symbols A and U, the
  cross-linkable set \<open>{U}\<close>, \<open>max_length = 2\<close>, the specs \<open>A:\<close> and \<open>U:\<close>, no substitution
  rules and the restriction sequence \<open>AU\<close>, the result holds the formula of U and the
  formula of A plus U less water, with its mass, and not the formula of A.
\<close>

theorem single_nucleotide_combinations:
  "fst (modified_nucleotides L map_target_to_formula map_to_nucleotide_modifications)
     = concat (map (\<lambda>(N, F). map (\<lambda>m. fst (modified_nucleotide L N F m))
                                  (map_get map_to_nucleotide_modifications N))
                   map_target_to_formula)
   \<and> (\<forall>(N, F)\<in>set map_target_to_formula. \<forall>m\<in>set (map_get map_to_nucleotide_modifications N).
         snd (modified_nucleotide L N F m)
           \<in> set (map_get (snd (modified_nucleotides L map_target_to_formula
                                  map_to_nucleotide_modifications))
                   (ef_toString L (fst (modified_nucleotide L N F m)))))
   \<and> modified_nucleotide L target_nucleotide target_nucleotide_formula []
       = (target_nucleotide_formula, target_nucleotide)
   \<and> parse_modification L [c, CHR '':''] = Inr ([c], [])
   \<and> initModificationMassesNA atoms_library [''A=C10H14N5O7P'', ''U=C9H13N2O9P''] []
        {CHR ''U''} [] [''A:'', ''U:''] ''AU'' False 2
       = Some (Inr \<lparr>formula2mass = [(''C19H25N7O15P2'', 653094), (''C9H13N2O9P1'', 324039)],
                     mod_combinations = [(''C19H25N7O15P2'', [''AU'']),
                                         (''C9H13N2O9P1'', [''U''])]\<rparr>)
   \<and> ef_parse atoms_library ''C10H14N5O7P''
       = Some [(''C'', 10), (''H'', 14), (''N'', 5), (''O'', 7), (''P'', 1)]
   \<and> ef_parse atoms_library ''C9H13N2O9P''
       = Some [(''C'', 9), (''H'', 13), (''N'', 2), (''O'', 9), (''P'', 1)]
   \<and> ef_toString atoms_library [(''C'', 10), (''H'', 14), (''N'', 5), (''O'', 7), (''P'', 1)]
       = ''C10H14N5O7P1''
   \<and> ef_toString atoms_library [(''C'', 9), (''H'', 13), (''N'', 2), (''O'', 9), (''P'', 1)]
       = ''C9H13N2O9P1''
   \<and> ef_toString atoms_library
        (condensation atoms_library [(''C'', 10), (''H'', 14), (''N'', 5), (''O'', 7), (''P'', 1)]
           [(''C'', 9), (''H'', 13), (''N'', 2), (''O'', 9), (''P'', 1)])
       = ''C19H25N7O15P2''
   \<and> ef_getMonoWeight atoms_library
        (condensation atoms_library [(''C'', 10), (''H'', 14), (''N'', 5), (''O'', 7), (''P'', 1)]
           [(''C'', 9), (''H'', 13), (''N'', 2), (''O'', 9), (''P'', 1)])
       = 653094"
proof -
  have run: "initModificationMassesNA atoms_library [''A=C10H14N5O7P'', ''U=C9H13N2O9P''] []
        {CHR ''U''} [] [''A:'', ''U:''] ''AU'' False 2
       = Some (Inr \<lparr>formula2mass = [(''C19H25N7O15P2'', 653094), (''C9H13N2O9P1'', 324039)],
                     mod_combinations = [(''C19H25N7O15P2'', [''AU'']),
                                         (''C9H13N2O9P1'', [''U''])]\<rparr>)"
    by code_simp
  have pa: "ef_parse atoms_library ''C10H14N5O7P''
       = Some [(''C'', 10), (''H'', 14), (''N'', 5), (''O'', 7), (''P'', 1)]"
    by code_simp
  have pu: "ef_parse atoms_library ''C9H13N2O9P''
       = Some [(''C'', 9), (''H'', 13), (''N'', 2), (''O'', 9), (''P'', 1)]"
    by code_simp
  have ka: "ef_toString atoms_library [(''C'', 10), (''H'', 14), (''N'', 5), (''O'', 7), (''P'', 1)]
       = ''C10H14N5O7P1''"
    by code_simp
  have ku: "ef_toString atoms_library [(''C'', 9), (''H'', 13), (''N'', 2), (''O'', 9), (''P'', 1)]
       = ''C9H13N2O9P1''"
    by code_simp
  have kau: "ef_toString atoms_library
        (condensation atoms_library [(''C'', 10), (''H'', 14), (''N'', 5), (''O'', 7), (''P'', 1)]
           [(''C'', 9), (''H'', 13), (''N'', 2), (''O'', 9), (''P'', 1)])
       = ''C19H25N7O15P2''"
    by code_simp
  have mau: "ef_getMonoWeight atoms_library
        (condensation atoms_library [(''C'', 10), (''H'', 14), (''N'', 5), (''O'', 7), (''P'', 1)]
           [(''C'', 9), (''H'', 13), (''N'', 2), (''O'', 9), (''P'', 1)])
       = 653094"
    by code_simp
  have un: "modified_nucleotide L target_nucleotide target_nucleotide_formula []
       = (target_nucleotide_formula, target_nucleotide)"
    by (simp add: modified_nucleotide_def)
  show ?thesis
    using modified_nucleotides_post [of L map_target_to_formula map_to_nucleotide_modifications]
      un parse_empty_modification [of L c] run pa pu ka ku kau mau
    by blast
qed

theorem single_nucleotide_combinations_witness:
  "''U'' \<in> set (map_get (snd (modified_nucleotides atoms_library
                  [(''U'', [(''C'', 9), (''H'', 13), (''N'', 2), (''O'', 9), (''P'', 1)])]
                  [(''U'', [[]])]))
               ''C9H13N2O9P1'')"
proof -
  have m: "[] \<in> set (map_get [(''U'', [[]::(atoms \<times> bool) list])] ''U'')"
    by (simp add: map_get_def)
  have e: "(''U'', [(''C'', 9), (''H'', 13), (''N'', 2), (''O'', 9), (''P'', 1)])
      \<in> set [(''U'', [(''C'', 9::int), (''H'', 13), (''N'', 2), (''O'', 9), (''P'', 1)])]"
    by simp
  have u: "modified_nucleotide atoms_library ''U''
      [(''C'', 9), (''H'', 13), (''N'', 2), (''O'', 9), (''P'', 1)] []
      = ([(''C'', 9), (''H'', 13), (''N'', 2), (''O'', 9), (''P'', 1)], ''U'')"
    by (simp add: modified_nucleotide_def)
  have k: "ef_toString atoms_library [(''C'', 9), (''H'', 13), (''N'', 2), (''O'', 9), (''P'', 1)]
       = ''C9H13N2O9P1''"
    by code_simp
  have "\<forall>(N, F)\<in>set [(''U'', [(''C'', 9::int), (''H'', 13), (''N'', 2), (''O'', 9), (''P'', 1)])].
        \<forall>m\<in>set (map_get [(''U'', [[]])] N).
         snd (modified_nucleotide atoms_library N F m)
           \<in> set (map_get (snd (modified_nucleotides atoms_library
                  [(''U'', [(''C'', 9), (''H'', 13), (''N'', 2), (''O'', 9), (''P'', 1)])]
                  [(''U'', [[]])]))
                   (ef_toString atoms_library (fst (modified_nucleotide atoms_library N F m))))"
    using single_nucleotide_combinations
      [of atoms_library "[(''U'', [(''C'', 9), (''H'', 13), (''N'', 2), (''O'', 9), (''P'', 1)])]"
          "[(''U'', [[]])]"]
    by blast
  with e m have "snd (modified_nucleotide atoms_library ''U''
        [(''C'', 9), (''H'', 13), (''N'', 2), (''O'', 9), (''P'', 1)] [])
      \<in> set (map_get (snd (modified_nucleotides atoms_library
                  [(''U'', [(''C'', 9), (''H'', 13), (''N'', 2), (''O'', 9), (''P'', 1)])]
                  [(''U'', [[]])]))
           (ef_toString atoms_library (fst (modified_nucleotide atoms_library ''U''
              [(''C'', 9), (''H'', 13), (''N'', 2), (''O'', 9), (''P'', 1)] []))))"
    by blast
  then show ?thesis unfolding u by (simp add: k)
qed

theorem no_implicit_unmodified_counterexample:
  "initModificationMassesNA atoms_library [''A=C10H14N5O7P'', ''U=C9H13N2O9P''] []
     {CHR ''U''} [] [] ''AU'' False 2
   = Some (Inr \<lparr>formula2mass = [], mod_combinations = []\<rparr>)"
  by code_simp

subsection \<open>Deduplication\<close>

lemma restriction_filter_items_gen:
  "snd (fold (\<lambda>(formula, mass) (mc, st).
             (let mc1 = map_touch formula mc;
                  ambiguities = map_get mc1 formula
              in (mc1, fold (check_ambiguity nt xl ml ts formula mass) ambiguities st)))
          f2m (mc, st))
   = fold (check_item nt xl ml ts) (filter_items f2m mc) st"
proof (induction f2m arbitrary: mc st)
  case Nil
  show ?case by (simp add: filter_items_def)
next
  case (Cons e f2m)
  obtain formula mass where e: "e = (formula, mass)" by (cases e)
  have items: "filter_items f2m (map_touch formula mc) = filter_items f2m mc"
    by (simp add: filter_items_def map_get_map_touch)
  have inner: "fold (check_ambiguity nt xl ml ts formula mass) ambs st
      = fold (check_item nt xl ml ts) (map (\<lambda>s. (formula, mass, s)) ambs) st" for ambs st
    by (induction ambs arbitrary: st) (simp_all add: check_item_def)
  let ?step = "\<lambda>(formula, mass) (mc, st).
             (let mc1 = map_touch formula mc;
                  ambiguities = map_get mc1 formula
              in (mc1, fold (check_ambiguity nt xl ml ts formula mass) ambiguities st))"
  have first: "?step e (mc, st) = (map_touch formula mc,
      fold (check_item nt xl ml ts) (map (\<lambda>s. (formula, mass, s)) (map_get mc formula)) st)"
    by (simp add: e Let_def inner map_get_map_touch)
  have "snd (fold ?step (e # f2m) (mc, st))
      = snd (fold ?step f2m (map_touch formula mc,
          fold (check_item nt xl ml ts) (map (\<lambda>s. (formula, mass, s)) (map_get mc formula)) st))"
    unfolding fold_simps first ..
  also have "\<dots> = fold (check_item nt xl ml ts) (filter_items f2m (map_touch formula mc))
      (fold (check_item nt xl ml ts) (map (\<lambda>s. (formula, mass, s)) (map_get mc formula)) st)"
    by (rule Cons.IH)
  also have "\<dots> = fold (check_item nt xl ml ts) (filter_items (e # f2m) mc) st"
    unfolding items by (simp add: filter_items_def e)
  finally show ?case .
qed

lemma restriction_filter_items:
  "snd (restriction_filter nt xl ml ts f2m mc)
     = fold (check_item nt xl ml ts) (filter_items f2m mc) ([], [])"
  unfolding restriction_filter_def by (rule restriction_filter_items_gen)

lemma check_item_step:
  assumes "check_item nt xl ml ts x (u, v) = (u', v')"
  shows "v' \<noteq> v \<longleftrightarrow>
           \<not> passes_rules nt xl ml ts (snd (snd x)) \<or> item_key x \<in> set u"
    and "\<exists>n. v' = v @ replicate n (fst x, snd (snd x))"
    and "set u' \<subseteq> insert (item_key x) (set u)" and "set u \<subseteq> set u'"
    and "passes_rules nt xl ml ts (snd (snd x)) \<Longrightarrow> u' = u @ [item_key x]"
    and "\<not> passes_rules nt xl ml ts (snd (snd x)) \<Longrightarrow> contained ts (fst (item_key x))
           \<Longrightarrow> u' = u"
proof -
  obtain formula mass s where x: "x = (formula, mass, s)" by (cases x) auto
  have c: "check_ambiguity nt xl ml ts formula mass s (u, v) = (u', v')"
    using assms by (simp add: check_item_def x)
  show "v' \<noteq> v \<longleftrightarrow>
           \<not> passes_rules nt xl ml ts (snd (snd x)) \<or> item_key x \<in> set u"
    using c
    by (auto simp: check_ambiguity_def Let_def passes_rules_def list_ex_iff item_key_def x
          length_filter_eq_iff not_less not_le split: if_splits)
  show "\<exists>n. v' = v @ replicate n (fst x, snd (snd x))"
  proof -
    have "v' = v @ replicate 0 (formula, s) \<or> v' = v @ replicate 1 (formula, s)
        \<or> v' = v @ replicate 2 (formula, s)"
      using c by (auto simp: check_ambiguity_def Let_def numeral_2_eq_2 split: if_splits)
    then show ?thesis unfolding x by (metis fst_conv snd_conv)
  qed
  show "set u' \<subseteq> insert (item_key x) (set u)" and "set u \<subseteq> set u'"
    using c by (auto simp: check_ambiguity_def Let_def item_key_def x split: if_splits)
  show "u' = u @ [item_key x]" if "passes_rules nt xl ml ts (snd (snd x))"
    using c that
    by (auto simp: check_ambiguity_def Let_def passes_rules_def list_ex_iff item_key_def x
          not_less not_le split: if_splits)
  show "u' = u" if "\<not> passes_rules nt xl ml ts (snd (snd x))" "contained ts (fst (item_key x))"
    using c that
    by (auto simp: check_ambiguity_def Let_def passes_rules_def list_ex_iff item_key_def x
          contained_def not_less not_le split: if_splits)
qed

lemma passes_rules_contained:
  "passes_rules nt xl ml ts (snd (snd x)) \<Longrightarrow> contained ts (fst (item_key x))"
  by (simp add: passes_rules_def contained_def item_key_def)

lemma accepted_keys_snoc:
  "accepted_keys nt xl ml ts (xs @ [x])
     = accept_item nt xl ml ts x (accepted_keys nt xl ml ts xs)"
  by (simp add: accepted_keys_def)

lemma accepted_keys_recorded:
  "fold (check_item nt xl ml ts) xs ([], []) = (u, v) \<Longrightarrow>
   k \<in> set (accepted_keys nt xl ml ts xs) \<longleftrightarrow> k \<in> set u \<and> contained ts (fst k)"
proof (induction xs arbitrary: u v k rule: rev_induct)
  case Nil
  then show ?case by (simp add: accepted_keys_def)
next
  case (snoc x xs)
  obtain u0 v0 where prev: "fold (check_item nt xl ml ts) xs ([], []) = (u0, v0)"
    by (metis prod.exhaust)
  with snoc.prems have step: "check_item nt xl ml ts x (u0, v0) = (u, v)" by simp
  note IH = snoc.IH [OF prev]
  note s = check_item_step [OF step]
  let ?A = "accepted_keys nt xl ml ts xs"
  have acc: "set (accepted_keys nt xl ml ts (xs @ [x]))
      = (if passes_rules nt xl ml ts (snd (snd x)) then insert (item_key x) (set ?A) else set ?A)"
    by (auto simp: accepted_keys_snoc accept_item_def)
  show ?case
  proof (cases "k = item_key x")
    case False
    then have "k \<in> set u \<longleftrightarrow> k \<in> set u0" using s(3,4) by blast
    with False IH [of k] show ?thesis by (simp add: acc)
  next
    case True
    show ?thesis
    proof (cases "passes_rules nt xl ml ts (snd (snd x))")
      case p: True
      then have "k \<in> set u" using s(5) True by simp
      with p True passes_rules_contained [of nt xl ml ts x] show ?thesis by (simp add: acc)
    next
      case np: False
      show ?thesis
      proof (cases "contained ts (fst k)")
        case c: True
        then have "u = u0" using s(6) np True by simp
        with np IH [of k] show ?thesis by (simp add: acc)
      next
        case nc: False
        with np IH [of k] show ?thesis by (simp add: acc)
      qed
    qed
  qed
qed

lemma check_items_violations:
  "fold (check_item nt xl ml ts) zs (u, v) = (u', v') \<Longrightarrow>
     set v \<subseteq> set v' \<and> set v' \<subseteq> set v \<union> item_pair ` set zs"
proof (induction zs arbitrary: u v)
  case Nil
  then show ?case by simp
next
  case (Cons z zs)
  obtain u1 v1 where 1: "check_item nt xl ml ts z (u, v) = (u1, v1)"
    by (cases "check_item nt xl ml ts z (u, v)")
  with Cons.prems have 2: "fold (check_item nt xl ml ts) zs (u1, v1) = (u', v')" by simp
  from check_item_step(2) [OF 1] obtain n where n: "v1 = v @ replicate n (fst z, snd (snd z))"
    by blast
  have a: "set v \<subseteq> set v1" unfolding n by simp
  have b: "set v1 \<subseteq> insert (item_pair z) (set v)"
    unfolding n by (auto simp: item_pair_def)
  from Cons.IH [OF 2] have c: "set v1 \<subseteq> set v'" and d: "set v' \<subseteq> set v1 \<union> item_pair ` set zs"
    by blast+
  from a b c d show ?case by (simp only: list.set image_insert) blast
qed

lemma filter_items_pairs:
  "map item_pair (filter_items f2m mc)
     = concat (map (\<lambda>(formula, mass). map (Pair formula) (map_get mc formula)) f2m)"
  by (induction f2m) (auto simp: filter_items_def item_pair_def)

lemma filter_items_distinct:
  assumes "distinct (map fst f2m)" and "\<And>formula. distinct (map_get mc formula)"
  shows "distinct (map item_pair (filter_items f2m mc))"
  unfolding filter_items_pairs using assms(1)
proof (induction f2m)
  case Nil
  show ?case by simp
next
  case (Cons e f2m)
  obtain formula mass where e: "e = (formula, mass)" by (cases e)
  let ?rest = "concat (map (\<lambda>(formula, mass). map (Pair formula) (map_get mc formula)) f2m)"
  have 1: "distinct (map (Pair formula) (map_get mc formula))"
    using assms(2) [of formula] by (simp add: distinct_map inj_on_def)
  have 2: "distinct ?rest" using Cons by simp
  have 3: "fst p \<in> fst ` set f2m" if "p \<in> set ?rest" for p
  proof -
    from that obtain k m where km: "(k, m) \<in> set f2m" and "p \<in> Pair k ` set (map_get mc k)"
      by auto
    then have "fst p = fst (k, m)" by auto
    with km show ?thesis by (metis imageI)
  qed
  have 4: "formula \<notin> fst ` set f2m" using Cons.prems by (simp add: e)
  have 5: "set (map (Pair formula) (map_get mc formula)) \<inter> set ?rest = {}"
  proof -
    have False if p1: "p \<in> set (map (Pair formula) (map_get mc formula))" and p2: "p \<in> set ?rest"
      for p
    proof -
      from p1 have "fst p = formula" by auto
      with 3 [OF p2] 4 show False by simp
    qed
    then show ?thesis by blast
  qed
  from 1 2 5 show ?case by (simp add: e)
qed

lemma filter_items_member:
  "(formula, mass, s) \<in> set (filter_items f2m mc) \<Longrightarrow>
     formula \<in> map_keys f2m \<and> s \<in> set (map_get mc formula)"
  by (auto simp: filter_items_def map_keys_def intro: rev_image_eqI)

text \<open>
  The filter on maps that hold no pair of a formula and an ambiguity twice: the pair is
  put on the list of violations, and with that erased from the ambiguities of its
  formula, exactly when it fails one of the rules before or its sorted composition and
  mass have been accepted among the pairs visited before.
\<close>

lemma deduplication_of_distinct_pairs:
  assumes "distinct (map item_pair (filter_items f2m mc))"
    and "filter_items f2m mc = xs @ (formula, mass, s) # ys"
  shows "((formula, s) \<in> set (snd (snd (restriction_filter nt_groups can_xl max_length
                                           target_sequences f2m mc)))
          \<longleftrightarrow> \<not> passes_rules nt_groups can_xl max_length target_sequences s
              \<or> (sorted_composition s, mass)
                  \<in> set (accepted_keys nt_groups can_xl max_length target_sequences xs))
       \<and> (s \<in> set (map_get
                     (erase_violations
                        (snd (snd (restriction_filter nt_groups can_xl max_length
                                     target_sequences f2m mc)))
                        (fst (restriction_filter nt_groups can_xl max_length
                                target_sequences f2m mc)))
                     formula)
          \<longleftrightarrow> passes_rules nt_groups can_xl max_length target_sequences s
              \<and> (sorted_composition s, mass)
                  \<notin> set (accepted_keys nt_groups can_xl max_length target_sequences xs))"
proof -
  let ?x = "(formula, mass, s)"
  let ?rf = "restriction_filter nt_groups can_xl max_length target_sequences f2m mc"
  let ?check = "check_item nt_groups can_xl max_length target_sequences"
  obtain u v where xs: "fold ?check xs ([], []) = (u, v)"
    by (cases "fold ?check xs ([], [])")
  obtain u1 v1 where x: "?check ?x (u, v) = (u1, v1)"
    by (cases "?check ?x (u, v)")
  obtain u2 v2 where ys: "fold ?check ys (u1, v1) = (u2, v2)"
    by (cases "fold ?check ys (u1, v1)")
  have final: "snd (snd ?rf) = v2"
    by (simp add: restriction_filter_items assms(2) xs x ys)
  have pair: "item_pair ?x = (formula, s)" and key: "item_key ?x = (sorted_composition s, mass)"
    by (simp_all add: item_pair_def item_key_def)
  from assms(1) have "distinct (map item_pair xs @ (formula, s) # map item_pair ys)"
    unfolding assms(2) by (simp add: pair)
  then have nxs: "(formula, s) \<notin> item_pair ` set xs" and nys: "(formula, s) \<notin> item_pair ` set ys"
    by auto
  from check_items_violations [OF xs] nxs have nv: "(formula, s) \<notin> set v" by auto
  from check_item_step(2) [OF x] obtain n where n: "v1 = v @ replicate n (formula, s)"
    by auto
  from n nv have 1: "(formula, s) \<in> set v1 \<longleftrightarrow> v1 \<noteq> v" by (cases n) auto
  from check_items_violations [OF ys] nys have 2: "(formula, s) \<in> set v2 \<longleftrightarrow> (formula, s) \<in> set v1"
    by auto
  from check_item_step(1) [OF x]
  have 3: "v1 \<noteq> v \<longleftrightarrow> \<not> passes_rules nt_groups can_xl max_length target_sequences s
                    \<or> (sorted_composition s, mass) \<in> set u"
    by (simp add: key)
  from accepted_keys_recorded [OF xs, of "(sorted_composition s, mass)"]
  have 4: "(sorted_composition s, mass)
             \<in> set (accepted_keys nt_groups can_xl max_length target_sequences xs)
      \<longleftrightarrow> (sorted_composition s, mass) \<in> set u \<and> contained target_sequences (sorted_composition s)"
    by simp
  have 5: "passes_rules nt_groups can_xl max_length target_sequences s
             \<Longrightarrow> contained target_sequences (sorted_composition s)"
    by (simp add: passes_rules_def contained_def)
  from 1 2 3 4 5 have first: "(formula, s) \<in> set (snd (snd ?rf))
          \<longleftrightarrow> \<not> passes_rules nt_groups can_xl max_length target_sequences s
              \<or> (sorted_composition s, mass)
                  \<in> set (accepted_keys nt_groups can_xl max_length target_sequences xs)"
    unfolding final by blast
  have "?x \<in> set (filter_items f2m mc)" unfolding assms(2) by simp
  from filter_items_member [OF this] have s: "s \<in> set (map_get mc formula)" by blast
  obtain mc1 st where rf: "?rf = (mc1, st)" by (cases ?rf)
  obtain u' v' where st: "st = (u', v')" by (cases st)
  from restriction_filter_post(2) [OF rf [unfolded st]] have "map_get mc1 formula = map_get mc formula" .
  with s erase_violations_post [of v' mc1]
  have "s \<in> set (map_get (erase_violations v' mc1) formula) \<longleftrightarrow> (formula, s) \<notin> set v'"
    by simp
  then have second: "s \<in> set (map_get (erase_violations (snd (snd ?rf)) (fst ?rf)) formula)
      \<longleftrightarrow> (formula, s) \<notin> set (snd (snd ?rf))"
    by (simp add: rf st)
  from first second show ?thesis by blast
qed

text \<open>The sets of the generated map hold no string twice, and neither map has a key twice.\<close>

lemma distinct_sets_map_insert:
  "\<forall>k. distinct (map_get mc k) \<Longrightarrow> distinct (map_get (map_insert k x mc) k')"
  by (simp add: map_insert_def map_get_map_set set_insert_def distinct_insort_insert)

lemma insert_ambiguities_distinct_sets:
  assumes run: "insert_ambiguities N kac knew it mc = Some mc'"
  shows "(\<forall>k. distinct (map_get mc k)) \<longrightarrow> (\<forall>k. distinct (map_get mc' k))"
proof (rule insert_ambiguities.raw_induct
    [where P = "\<lambda>N kac knew it mc mc'. (\<forall>k. distinct (map_get mc k)) \<longrightarrow> (\<forall>k. distinct (map_get mc' k))",
     OF _ run])
  fix f and N kac knew :: string and it :: "string option" and mc mc' :: mod_combinations_map
  assume IH: "\<And>N kac knew it mc mc'. f N kac knew it mc = Some mc'
                \<Longrightarrow> (\<forall>k. distinct (map_get mc k)) \<longrightarrow> (\<forall>k. distinct (map_get mc' k))"
    and step: "(case it of None \<Rightarrow> Some mc
               | Some s \<Rightarrow> f N kac knew
                   (set_next s (map_get (map_insert knew (N @ s) mc) kac))
                   (map_insert knew (N @ s) mc)) = Some mc'"
  show "(\<forall>k. distinct (map_get mc k)) \<longrightarrow> (\<forall>k. distinct (map_get mc' k))"
  proof (cases it)
    case None
    with step show ?thesis by simp
  next
    case (Some s)
    with step have "f N kac knew (set_next s (map_get (map_insert knew (N @ s) mc) kac))
        (map_insert knew (N @ s) mc) = Some mc'"
      by simp
    from IH [OF this] show ?thesis by (simp add: distinct_sets_map_insert)
  qed
qed

lemma extend_combination_distinct_sets:
  assumes "extend_combination L N F_N ac (new, all, mc) = Some (new', all', mc')"
    and "\<forall>k. distinct (map_get mc k)"
  shows "\<forall>k. distinct (map_get mc' k)"
proof -
  from assms(1) have run: "insert_ambiguities N (ef_toString L ac)
      (ef_toString L (ef_minus L (ef_plus L F_N ac) (ef_water L)))
      (set_begin (map_get (map_touch (ef_toString L ac) mc) (ef_toString L ac)))
      (map_touch (ef_toString L ac) mc) = Some mc'"
    by (auto simp: extend_combination_def Let_def split: option.splits)
  from assms(2) have "\<forall>k. distinct (map_get (map_touch (ef_toString L ac) mc) k)"
    by (simp add: map_get_map_touch)
  with insert_ambiguities_distinct_sets [OF run] show ?thesis by blast
qed

lemma chain_round_distinct_sets:
  assumes "chain_round L t2f st = Some st'"
    and "\<forall>k. distinct (map_get (snd (snd st)) k)"
  shows "\<forall>k. distinct (map_get (snd (snd st')) k)"
proof -
  obtain actual all mc where st: "st = (actual, all, mc)" by (cases st)
  let ?I = "\<lambda>s. \<forall>k. distinct (map_get (snd (snd s)) k)"
  from assms(1) have o: "ofold (\<lambda>(N, F_N). ofold (extend_combination L N F_N) actual) t2f
      ([], all, mc) = Some st'"
    by (simp add: chain_round_def st)
  show ?thesis
  proof (rule ofold_invariant [OF o, of ?I])
    show "?I ([], all, mc)" using assms(2) by (simp add: st)
  next
    fix x a b
    assume a: "?I a" and step: "(case x of (N, F_N) \<Rightarrow> ofold (extend_combination L N F_N) actual) a = Some b"
    obtain N F_N where x: "x = (N, F_N)" by (cases x)
    from step have inner: "ofold (extend_combination L N F_N) actual a = Some b" by (simp add: x)
    show "?I b"
    proof (rule ofold_invariant [OF inner, of ?I])
      show "?I a" by (rule a)
    next
      fix ac s s'
      assume s: "?I s" and e: "extend_combination L N F_N ac s = Some s'"
      obtain n1 a1 m1 where s1: "s = (n1, a1, m1)" by (cases s)
      obtain n2 a2 m2 where s2: "s' = (n2, a2, m2)" by (cases s')
      from extend_combination_distinct_sets [OF e [unfolded s1 s2]] s
      show "?I s'" by (simp add: s1 s2)
    qed
  qed
qed

lemma modified_nucleotides_distinct_sets:
  "\<forall>k. distinct (map_get (snd (modified_nucleotides L t2f nm)) k)"
proof -
  let ?I = "\<lambda>st. \<forall>k. distinct (map_get (snd st) k)"
  have one: "?I (add_modified_nucleotide L N F [] nt_mod st)" if "?I st" for N F nt_mod st
    using that
    by (cases st) (simp add: add_modified_nucleotide_def Let_def split_beta distinct_sets_map_insert)
  have inner: "?I (fold (add_modified_nucleotide L N F []) mods st)" if "?I st" for N F mods st
    using that
  proof (induction mods arbitrary: st)
    case Nil
    then show ?case by simp
  next
    case (Cons m mods)
    from one [OF Cons.prems] have "?I (add_modified_nucleotide L N F [] m st)" .
    from Cons.IH [OF this] show ?case by simp
  qed
  have "?I (fold (\<lambda>(target_nucleotide, target_nucleotide_formula) st.
             (let nt_mods = map_get nm target_nucleotide;
                  formulas_of_modified_nucleotide = []
              in fold (add_modified_nucleotide L target_nucleotide target_nucleotide_formula
                         formulas_of_modified_nucleotide) nt_mods st)) t2f st)"
    if "?I st" for st
    using that
  proof (induction t2f arbitrary: st)
    case Nil
    then show ?case by simp
  next
    case (Cons e t2f)
    obtain N F where e: "e = (N, F)" by (cases e)
    have "?I (fold (add_modified_nucleotide L N F []) (map_get nm N) st)"
      using inner Cons.prems by blast
    from Cons.IH [OF this] show ?case by (simp add: e)
  qed
  from this [of "([], [])"] show ?thesis
    by (simp add: modified_nucleotides_def map_get_def)
qed

lemma generate_combinations_distinct_sets:
  assumes "generate_combinations L t2f nm max_length = Some (Inr (all, mc))"
  shows "\<forall>k. distinct (map_get mc k)"
proof -
  obtain actual mc0 where m: "modified_nucleotides L t2f nm = (actual, mc0)"
    by (cases "modified_nucleotides L t2f nm")
  have d0: "\<forall>k. distinct (map_get mc0 k)"
    using modified_nucleotides_distinct_sets [of L t2f nm] m by simp
  from assms m obtain new where
    loop: "chain_loop L t2f max_length 0 (actual, actual, mc0) = Some (Inr (new, all, mc))"
    by (auto simp: generate_combinations_def split: option.splits sum.splits)
  have range: "Int_min \<le> max_length - 1"
    using loop chain_loop_overflow [of max_length L t2f 0 "(actual, actual, mc0)"]
    by (cases "max_length - 1 < Int_min") simp_all
  have eq: "chain_loop L t2f max_length 0 (actual, actual, mc0)
      = map_option Inr (ofold (\<lambda>round. chain_round L t2f) [0..<nat (max_length - 1)]
                          (actual, actual, mc0))"
    using chain_loop_rounds [of 0 max_length L t2f "(actual, actual, mc0)"] range by simp
  have o: "ofold (\<lambda>round. chain_round L t2f) [0..<nat (max_length - 1)] (actual, actual, mc0)
      = Some (new, all, mc)"
    using loop unfolding eq
    by (cases "ofold (\<lambda>round. chain_round L t2f) [0..<nat (max_length - 1)] (actual, actual, mc0)")
       simp_all
  let ?I = "\<lambda>s. \<forall>k. distinct (map_get (snd (snd s)) k)"
  have "?I (new, all, mc)"
  proof (rule ofold_invariant [OF o, of ?I])
    show "?I (actual, actual, mc0)" using d0 by simp
  next
    fix x a b
    assume "?I a" and "chain_round L t2f a = Some b"
    then show "?I b" using chain_round_distinct_sets by blast
  qed
  then show ?thesis by simp
qed

lemma masses_of_distinct_gen:
  "distinct (map fst m0) \<Longrightarrow>
   distinct (map fst (fold (\<lambda>f m. map_set (ef_toString L f) (ef_getMonoWeight L f) m) all m0))"
  by (induction all arbitrary: m0) (simp_all add: distinct_map_set)

lemma masses_of_distinct: "distinct (map fst (masses_of L all))"
  by (simp add: masses_of_def masses_of_distinct_gen)

lemma generated_items_distinct:
  assumes "generate_combinations L t2f nm max_length = Some (Inr (all, mc))"
  shows "distinct (map item_pair (filter_items (masses_of L all) mc))"
  using filter_items_distinct [OF masses_of_distinct, of mc L all]
    generate_combinations_distinct_sets [OF assms]
  by simp

text \<open>
  C4. The filter runs on the generated maps and visits the pairs of a formula and an
  ambiguity in the order of its two loops, each pair once. The pair \<open>(formula, s)\<close> is
  put on the list of violations, and with that erased from the ambiguities of its
  formula, exactly when \<open>s\<close> fails one of the rules before or its sorted composition and
  mass have been accepted among the pairs visited before, \<open>xs\<close>. So of the pairs with
  one composition and mass that pass the rules before, the first is kept and the later
  ones are dropped.
\<close>

theorem deduplication_keeps_first_seen:
  assumes "generate_combinations L map_target_to_formula map_to_nucleotide_modifications max_length
             = Some (Inr (all_combinations, mc))"
    and "filter_items (masses_of L all_combinations) mc = xs @ (formula, mass, s) # ys"
  shows "((formula, s) \<in> set (snd (snd (restriction_filter nt_groups can_xl max_length
                                           target_sequences (masses_of L all_combinations) mc)))
          \<longleftrightarrow> \<not> passes_rules nt_groups can_xl max_length target_sequences s
              \<or> (sorted_composition s, mass)
                  \<in> set (accepted_keys nt_groups can_xl max_length target_sequences xs))
       \<and> (s \<in> set (map_get
                     (erase_violations
                        (snd (snd (restriction_filter nt_groups can_xl max_length
                                     target_sequences (masses_of L all_combinations) mc)))
                        (fst (restriction_filter nt_groups can_xl max_length
                                target_sequences (masses_of L all_combinations) mc)))
                     formula)
          \<longleftrightarrow> passes_rules nt_groups can_xl max_length target_sequences s
              \<and> (sorted_composition s, mass)
                  \<notin> set (accepted_keys nt_groups can_xl max_length target_sequences xs))"
  using deduplication_of_distinct_pairs [OF generated_items_distinct [OF assms(1)] assms(2)] .

theorem deduplication_keeps_first_seen_witness:
  "(''C19H25N7O15P2'', ''UA'')
      \<in> set (snd (snd (restriction_filter [] {CHR ''U''} 2 [''AU'']
                          [(''C10H14N5O7P1'', 347066 :: int), (''C18H24N4O17P2'', 630067),
                           (''C19H25N7O15P2'', 653094), (''C20H26N10O13P2'', 676121),
                           (''C9H13N2O9P1'', 324039)]
                          [(''C10H14N5O7P1'', [''A'']), (''C18H24N4O17P2'', [''UU'']),
                           (''C19H25N7O15P2'', [''AU'', ''UA'']),
                           (''C20H26N10O13P2'', [''AA'']), (''C9H13N2O9P1'', [''U''])])))
   \<and> (''C19H25N7O15P2'', ''AU'')
      \<notin> set (snd (snd (restriction_filter [] {CHR ''U''} 2 [''AU'']
                          [(''C10H14N5O7P1'', 347066 :: int), (''C18H24N4O17P2'', 630067),
                           (''C19H25N7O15P2'', 653094), (''C20H26N10O13P2'', 676121),
                           (''C9H13N2O9P1'', 324039)]
                          [(''C10H14N5O7P1'', [''A'']), (''C18H24N4O17P2'', [''UU'']),
                           (''C19H25N7O15P2'', [''AU'', ''UA'']),
                           (''C20H26N10O13P2'', [''AA'']), (''C9H13N2O9P1'', [''U''])])))"
proof -
  let ?t2f = "[(''A'', [(''C'', 10 :: int), (''H'', 14), (''N'', 5), (''O'', 7), (''P'', 1)]),
               (''U'', [(''C'', 9), (''H'', 13), (''N'', 2), (''O'', 9), (''P'', 1)])]"
  let ?nm = "[(''A'', [[]]), (''U'', [[]])] :: (string, atoms NucleotideModification list) std_map"
  let ?all = "[[(''C'', 10 :: int), (''H'', 14), (''N'', 5), (''O'', 7), (''P'', 1)],
               [(''C'', 9), (''H'', 13), (''N'', 2), (''O'', 9), (''P'', 1)],
               [(''C'', 20), (''H'', 26), (''N'', 10), (''O'', 13), (''P'', 2)],
               [(''C'', 19), (''H'', 25), (''N'', 7), (''O'', 15), (''P'', 2)],
               [(''C'', 19), (''H'', 25), (''N'', 7), (''O'', 15), (''P'', 2)],
               [(''C'', 18), (''H'', 24), (''N'', 4), (''O'', 17), (''P'', 2)]]"
  let ?f2m = "[(''C10H14N5O7P1'', 347066 :: int), (''C18H24N4O17P2'', 630067),
               (''C19H25N7O15P2'', 653094), (''C20H26N10O13P2'', 676121),
               (''C9H13N2O9P1'', 324039)]"
  let ?mc = "[(''C10H14N5O7P1'', [''A'']), (''C18H24N4O17P2'', [''UU'']),
              (''C19H25N7O15P2'', [''AU'', ''UA'']),
              (''C20H26N10O13P2'', [''AA'']), (''C9H13N2O9P1'', [''U''])]"
  let ?before_AU = "[(''C10H14N5O7P1'', 347066 :: int, ''A''), (''C18H24N4O17P2'', 630067, ''UU'')]"
  let ?after_UA = "[(''C20H26N10O13P2'', 676121 :: int, ''AA''), (''C9H13N2O9P1'', 324039, ''U'')]"
  have gen: "generate_combinations atoms_library ?t2f ?nm 2 = Some (Inr (?all, ?mc))"
    by code_simp
  have masses: "masses_of atoms_library ?all = ?f2m"
    by code_simp
  have items: "filter_items ?f2m ?mc
      = ?before_AU @ [(''C19H25N7O15P2'', 653094, ''AU''), (''C19H25N7O15P2'', 653094, ''UA'')]
          @ ?after_UA"
    by (simp add: filter_items_def map_get_def)
  have first: "filter_items (masses_of atoms_library ?all) ?mc
      = ?before_AU @ (''C19H25N7O15P2'', 653094, ''AU'')
          # ((''C19H25N7O15P2'', 653094, ''UA'') # ?after_UA)"
    unfolding masses items by simp
  have second: "filter_items (masses_of atoms_library ?all) ?mc
      = (?before_AU @ [(''C19H25N7O15P2'', 653094, ''AU'')])
          @ (''C19H25N7O15P2'', 653094, ''UA'') # ?after_UA"
    unfolding masses items by simp
  have passes: "passes_rules [] {CHR ''U''} 2 [''AU''] ''AU''" by code_simp
  have none: "accepted_keys [] {CHR ''U''} 2 [''AU''] ?before_AU = []"
    by code_simp
  have one: "accepted_keys [] {CHR ''U''} 2 [''AU''] (?before_AU @ [(''C19H25N7O15P2'', 653094, ''AU'')])
      = [(''AU'', 653094)]"
    by code_simp
  have comp: "sorted_composition ''UA'' = ''AU''" "sorted_composition ''AU'' = ''AU''"
    by code_simp+
  note later = deduplication_keeps_first_seen [OF gen second, where nt_groups = "[]"
      and can_xl = "{CHR ''U''}" and target_sequences = "[''AU'']"]
  have a: "(''C19H25N7O15P2'', ''UA'')
      \<in> set (snd (snd (restriction_filter [] {CHR ''U''} 2 [''AU''] ?f2m ?mc)))"
    using later [unfolded masses one comp, THEN conjunct1] by simp
  note earlier = deduplication_keeps_first_seen [OF gen first, where nt_groups = "[]"
      and can_xl = "{CHR ''U''}" and target_sequences = "[''AU'']"]
  have b: "(''C19H25N7O15P2'', ''AU'')
      \<notin> set (snd (snd (restriction_filter [] {CHR ''U''} 2 [''AU''] ?f2m ?mc)))"
    using earlier [unfolded masses none comp, THEN conjunct1] passes by simp
  from a b show ?thesis by blast
qed

text \<open>
  The list \<open>unique_nucleotide_and_mod_composition\<close> itself holds more than the accepted
  compositions: the check of containment does not leave the body of the loop, so a
  composition that fails it is recorded as well, and a later pair with that composition
  is put on the list of violations twice. With the restriction sequence \<open>AA\<close> the
  strings \<open>AU\<close> and \<open>UA\<close> both fail containment, \<open>AU\<close> is recorded and \<open>UA\<close> is listed
  twice; the result is the same as if it were listed once.
\<close>

lemma unique_list_records_rejected_composition:
  "filter_state_of atoms_library [''A=C10H14N5O7P'', ''U=C9H13N2O9P''] [] {CHR ''U''} []
       [''A:'', ''U:''] ''AA'' 2
     = Some ([(''UU'', 630067), (''AU'', 653094), (''AU'', 653094), (''U'', 324039)],
             [(''C10H14N5O7P1'', ''A''), (''C18H24N4O17P2'', ''UU''),
              (''C19H25N7O15P2'', ''AU''), (''C19H25N7O15P2'', ''UA''),
              (''C19H25N7O15P2'', ''UA''), (''C20H26N10O13P2'', ''AA''),
              (''C9H13N2O9P1'', ''U'')])
   \<and> initModificationMassesNA atoms_library [''A=C10H14N5O7P'', ''U=C9H13N2O9P''] []
       {CHR ''U''} [] [''A:'', ''U:''] ''AA'' False 2
     = Some (Inr \<lparr>formula2mass = [], mod_combinations = []\<rparr>)"
proof -
  have "filter_state_of atoms_library [''A=C10H14N5O7P'', ''U=C9H13N2O9P''] [] {CHR ''U''} []
       [''A:'', ''U:''] ''AA'' 2
     = Some ([(''UU'', 630067), (''AU'', 653094), (''AU'', 653094), (''U'', 324039)],
             [(''C10H14N5O7P1'', ''A''), (''C18H24N4O17P2'', ''UU''),
              (''C19H25N7O15P2'', ''AU''), (''C19H25N7O15P2'', ''UA''),
              (''C19H25N7O15P2'', ''UA''), (''C20H26N10O13P2'', ''AA''),
              (''C9H13N2O9P1'', ''U'')])"
    by code_simp
  moreover have "initModificationMassesNA atoms_library [''A=C10H14N5O7P'', ''U=C9H13N2O9P''] []
       {CHR ''U''} [] [''A:'', ''U:''] ''AA'' False 2
     = Some (Inr \<lparr>formula2mass = [], mod_combinations = []\<rparr>)"
    by code_simp
  ultimately show ?thesis by (rule conjI)
qed

subsection \<open>Order of the containers\<close>

text \<open>The containers stay in order: iterating the list is iterating the container.\<close>

lemma sorted_map_set:
  "sorted (map fst m) \<Longrightarrow> sorted (map fst (map_set k v m))"
  by (simp add: map_set_def map_fst_map_upd_entry sorted_insort_key)

lemma sorted_map_touch:
  "sorted (map fst m) \<Longrightarrow> sorted (map fst (map_touch k m))"
  by (simp add: map_touch_def sorted_insort_key)

lemma sorted_map_erase:
  "sorted (map fst m) \<Longrightarrow> sorted (map fst (map_erase k m))"
  by (simp add: map_erase_def sorted_filter)

text \<open>The map of the rules stays in the order of its keys as signed values.\<close>

lemma map_signed_char_map_upd_entry:
  "map (\<lambda>e. signed_char (fst e)) (map (\<lambda>(k', v'). if k' = k then (k', v) else (k', v')) m)
     = map (\<lambda>e. signed_char (fst e)) m"
  by (induction m) auto

lemma sorted_char_map_push_back:
  "sorted (map (\<lambda>e. signed_char (fst e)) m) \<Longrightarrow>
   sorted (map (\<lambda>e. signed_char (fst e)) (char_map_push_back k x m))"
  unfolding char_map_push_back_def char_map_set_def
  by (simp add: map_signed_char_map_upd_entry sorted_insort_key del: map_map)

lemma sorted_parse_mappings:
  "parse_mappings mappings m = Inr m' \<Longrightarrow> sorted (map (\<lambda>e. signed_char (fst e)) m) \<Longrightarrow>
   sorted (map (\<lambda>e. signed_char (fst e)) m')"
proof (induction mappings arbitrary: m)
  case Nil
  then show ?case by simp
next
  case (Cons s mappings)
  from Cons.prems(1) have "parse_mappings mappings
      (char_map_push_back (rule_source s) (first_char (split s ''->'' ! 1)) m) = Inr m'"
    unfolding parse_mappings_step by (simp split: if_splits)
  from Cons.IH [OF this sorted_char_map_push_back [OF Cons.prems(2)]] show ?case .
qed

lemma sorted_set_insert: "sorted s \<Longrightarrow> sorted (set_insert x s)"

  by (simp add: set_insert_def sorted_insort_insert)

lemma sorted_set_erase: "sorted s \<Longrightarrow> sorted (set_erase x s)"
  using sorted_filter [of "\<lambda>x. x" s] by (simp add: set_erase_def)

lemma distinct_set_insert: "distinct s \<Longrightarrow> distinct (set_insert x s)"
  by (simp add: set_insert_def distinct_insort_insert)

lemma least_of_sorted: "sorted (x # xs) \<Longrightarrow> least_of (x # xs) = Some x"
proof -
  assume s: "sorted (x # xs)"
  have "Min (set (x # xs)) = x"
    by (rule Min_eqI) (use s in auto)
  then show ?thesis using Min.set_eq_fold [of x xs] by simp
qed

lemma set_next_sorted:
  "sorted s \<Longrightarrow> set_next x s = (case filter (\<lambda>y. x < y) s of [] \<Rightarrow> None | y # ys \<Rightarrow> Some y)"
proof -
  assume "sorted s"
  then have "sorted (filter (\<lambda>y. x < y) s)" using sorted_filter [of "\<lambda>x. x" s] by simp
  then show ?thesis
    by (cases "filter (\<lambda>y. x < y) s")
       (simp_all add: set_next_def least_of_sorted del: least_of.simps(2))
qed

subsection \<open>A run that does not return\<close>






end
